(* ===== verification/Prelude.thy ===== *)
theory Prelude
  imports Main "HOL-Library.AList" "HOL-Library.Multiset"
begin

text \<open>
  Shared vocabulary of the development. Vertices and weights are Python's
  unbounded \<open>int\<close>; an edge is the triple \<open>(u, v, w)\<close> of
  \<^verbatim>\<open>Edge = Tuple[int, int, int]\<close> (src/low_level_problem.py). A Python
  \<open>dict\<close> is an association list read with \<open>map_of\<close> and written with
  \<open>AList.update\<close>: like a dict, it keeps its keys in insertion order, and
  \<open>AList.update\<close> overwrites an existing key in place and appends a new one at
  the end. Exceptions raised by the code are values of \<open>py_error\<close>; the
  builtins the code relies on (\<open>d[k]\<close>, \<open>defaultdict(list)\<close>,
  \<open>dict.setdefault\<close>, \<open>max(xs, key=f)\<close>) are defined here once, with the
  lemmas that the component theories share.
\<close>

type_synonym vertex = int
type_synonym weight = int
type_synonym edge = "vertex \<times> vertex \<times> weight"
type_synonym ('k, 'v) dict = "('k \<times> 'v) list"
type_synonym adjmap = "(vertex, (vertex \<times> weight) list) dict"

text \<open>The exceptions the analysed code can raise.\<close>

datatype py_error =
    NotADag          \<comment> \<open>\<^verbatim>\<open>ValueError("El grafo no es un DAG ...")\<close> of \<open>topo_order\<close>\<close>
  | KeyError vertex  \<comment> \<open>a read of a missing key of a plain \<open>dict\<close>\<close>
  | EmptySequence    \<comment> \<open>\<^verbatim>\<open>max()\<close> of an empty sequence\<close>
  | IntLiteralError string  \<comment> \<open>\<^verbatim>\<open>ValueError("invalid literal for int() with base 10: ...")\<close>\<close>

named_theorems dict_simps "rewrite rules for the Python dictionary operations"

text \<open>\<open>d[k]\<close> on a plain dict: \<open>KeyError\<close> when the key is missing.\<close>

definition dict_get :: "(vertex, 'v) dict \<Rightarrow> vertex \<Rightarrow> py_error + 'v" where
  "dict_get d k = (case map_of d k of None \<Rightarrow> Inl (KeyError k) | Some x \<Rightarrow> Inr x)"

text \<open>\<open>adj[u]\<close> on a \<open>defaultdict(list)\<close>: a missing key reads as the empty list.\<close>

definition dd_get :: "('k, 'a list) dict \<Rightarrow> 'k \<Rightarrow> 'a list" where
  "dd_get d k = (case map_of d k of None \<Rightarrow> [] | Some xs \<Rightarrow> xs)"

text \<open>\<open>adj[u].append(x)\<close> on a \<open>defaultdict(list)\<close>.\<close>

definition dd_append :: "('k, 'a list) dict \<Rightarrow> 'k \<Rightarrow> 'a \<Rightarrow> ('k, 'a list) dict" where
  "dd_append d k x = AList.update k (dd_get d k @ [x]) d"

text \<open>\<open>d.setdefault(k, [])\<close>.\<close>

definition set_default :: "('k, 'a list) dict \<Rightarrow> 'k \<Rightarrow> ('k, 'a list) dict" where
  "set_default d k = (case map_of d k of None \<Rightarrow> AList.update k [] d | Some _ \<Rightarrow> d)"

text \<open>
  \<open>max(xs, key=f)\<close>: the scan keeps the first element and replaces the current
  best only by a strictly greater key, so ties go to the first maximum; an empty
  sequence raises \<open>ValueError\<close>.
\<close>

fun max_key_from :: "('a \<Rightarrow> 'b::linorder) \<Rightarrow> 'a \<Rightarrow> 'a list \<Rightarrow> 'a" where
  "max_key_from f best [] = best"
| "max_key_from f best (x # xs) = max_key_from f (if f best < f x then x else best) xs"

definition py_max_key :: "('a \<Rightarrow> 'b::linorder) \<Rightarrow> 'a list \<Rightarrow> py_error + 'a" where
  "py_max_key f xs = (case xs of [] \<Rightarrow> Inl EmptySequence | x # xs' \<Rightarrow> Inr (max_key_from f x xs'))"

text \<open>Sequencing of code that may raise: the first exception propagates.\<close>

definition bind_res :: "py_error + 'a \<Rightarrow> ('a \<Rightarrow> py_error + 'b) \<Rightarrow> py_error + 'b" where
  "bind_res m f = (case m of Inl e \<Rightarrow> Inl e | Inr x \<Rightarrow> f x)"

text \<open>\<open>[d[k] for k in ks]\<close>: the keys are read in order, the first missing one raises.\<close>

fun dict_get_all :: "(vertex, 'v) dict \<Rightarrow> vertex list \<Rightarrow> py_error + 'v list" where
  "dict_get_all d [] = Inr []"
| "dict_get_all d (k # ks) =
     bind_res (dict_get d k) (\<lambda>x. bind_res (dict_get_all d ks) (\<lambda>xs. Inr (x # xs)))"

text \<open>\<open>max(xs, key=lambda n: d[n])\<close>.\<close>

definition dict_max_key :: "(vertex, 'b::linorder) dict \<Rightarrow> vertex list \<Rightarrow> py_error + vertex" where
  "dict_max_key d xs =
     (case xs of [] \<Rightarrow> Inl EmptySequence
      | _ \<Rightarrow> bind_res (dict_get_all d xs) (\<lambda>ks. bind_res (py_max_key snd (zip xs ks)) (\<lambda>p. Inr (fst p))))"

section \<open>Lemmas on the dictionary operations\<close>

lemma bind_res_simps [simp]:
  "bind_res (Inl e) f = Inl e"
  "bind_res (Inr x) f = f x"
  by (simp_all add: bind_res_def)

lemma bind_res_eq_Inr [dict_simps]: "bind_res m f = Inr y \<longleftrightarrow> (\<exists>x. m = Inr x \<and> f x = Inr y)"
  by (cases m) simp_all

lemma dict_get_all_ok:
  "set ks \<subseteq> dom (map_of d) \<Longrightarrow> dict_get_all d ks = Inr (map (\<lambda>k. the (map_of d k)) ks)"
  by (induction ks) (auto simp: dict_get_def)

lemma dd_get_Nil [simp]: "dd_get [] k = []"
  by (simp add: dd_get_def)

lemma map_of_dd_append:
  "map_of (dd_append d k x) = (map_of d)(k \<mapsto> dd_get d k @ [x])"
  by (simp add: dd_append_def update_conv')

lemma dd_get_dd_append [dict_simps]:
  "dd_get (dd_append d k x) k' = (if k' = k then dd_get d k @ [x] else dd_get d k')"
  by (simp add: dd_get_def map_of_dd_append)

lemma map_of_set_default:
  "map_of (set_default d k) = (case map_of d k of None \<Rightarrow> (map_of d)(k \<mapsto> []) | Some _ \<Rightarrow> map_of d)"
  by (simp add: set_default_def update_conv' split: option.split)

lemma dd_get_set_default [dict_simps]: "dd_get (set_default d k) k' = dd_get d k'"
  by (auto simp: dd_get_def map_of_set_default split: option.split)

lemma dom_map_of_dd_append [dict_simps]:
  "dom (map_of (dd_append d k x)) = insert k (dom (map_of d))"
  by (simp add: map_of_dd_append)

lemma dom_map_of_set_default [dict_simps]:
  "dom (map_of (set_default d k)) = insert k (dom (map_of d))"
  by (auto simp: map_of_set_default split: option.split)

lemma dict_get_Inr_iff [dict_simps]: "dict_get d k = Inr x \<longleftrightarrow> map_of d k = Some x"
  by (simp add: dict_get_def split: option.split)

section \<open>Lemmas on \<open>max(xs, key=f)\<close>\<close>

lemma max_key_from_in: "max_key_from f b xs \<in> insert b (set xs)"
  by (induction xs arbitrary: b) (auto dest: set_mp [OF equalityD1, rotated])

lemma max_key_from_ge_best: "f b \<le> f (max_key_from f b xs)"
proof (induction xs arbitrary: b)
  case (Cons x xs)
  have "f b \<le> f (if f b < f x then x else b)" by auto
  also have "\<dots> \<le> f (max_key_from f (if f b < f x then x else b) xs)" by (rule Cons.IH)
  finally show ?case by simp
qed simp

lemma max_key_from_ge: "y \<in> insert b (set xs) \<Longrightarrow> f y \<le> f (max_key_from f b xs)"
proof (induction xs arbitrary: b)
  case Nil
  then show ?case by simp
next
  case (Cons x xs)
  let ?b' = "if f b < f x then x else b"
  show ?case
  proof (cases "y \<in> set xs")
    case True
    then show ?thesis using Cons.IH [of ?b'] by simp
  next
    case False
    with Cons.prems have "f y \<le> f ?b'" by auto
    also have "\<dots> \<le> f (max_key_from f ?b' xs)" by (rule max_key_from_ge_best)
    finally show ?thesis by simp
  qed
qed

lemma py_max_key_Inr:
  "py_max_key f xs = Inr m \<Longrightarrow> m \<in> set xs \<and> (\<forall>y \<in> set xs. f y \<le> f m)"
  using max_key_from_in [of f] max_key_from_ge [of _ _ _ f]
  by (cases xs) (auto simp: py_max_key_def)

lemma py_max_key_Nil [simp]: "py_max_key f [] = Inl EmptySequence"
  by (simp add: py_max_key_def)

lemma py_max_key_Cons_Inr [simp]: "\<exists>m. py_max_key f (x # xs) = Inr m"
  by (simp add: py_max_key_def)


lemma dict_get_all_Inr:
  "dict_get_all d ks = Inr vs \<Longrightarrow> set ks \<subseteq> dom (map_of d) \<and> vs = map (\<lambda>k. the (map_of d k)) ks"
proof (induction ks arbitrary: vs)
  case (Cons k ks)
  then show ?case by (auto simp: dict_get_def bind_res_def split: option.splits sum.splits)
qed simp

lemma dict_max_key_Inr:
  assumes "dict_max_key d xs = Inr m"
  shows "m \<in> set xs \<and> set xs \<subseteq> dom (map_of d) \<and> (\<forall>y \<in> set xs. the (map_of d y) \<le> the (map_of d m))"
proof -
  from assms obtain ks p where ks: "dict_get_all d xs = Inr ks"
    and p: "py_max_key snd (zip xs ks) = Inr p" and m: "m = fst p"
    by (auto simp: dict_max_key_def bind_res_def split: list.splits sum.splits)
  from dict_get_all_Inr [OF ks] have sub: "set xs \<subseteq> dom (map_of d)"
    and ks_eq: "ks = map (\<lambda>k. the (map_of d k)) xs" by auto
  have z: "zip xs ks = map (\<lambda>k. (k, the (map_of d k))) xs"
    by (simp add: ks_eq zip_map2 zip_same_conv_map)
  from py_max_key_Inr [OF p] have "p \<in> set (zip xs ks)" and "\<forall>y \<in> set (zip xs ks). snd y \<le> snd p" by auto
  with z m sub show ?thesis by auto
qed

lemma dict_max_key_ok:
  "xs \<noteq> [] \<Longrightarrow> set xs \<subseteq> dom (map_of d) \<Longrightarrow> \<exists>m. dict_max_key d xs = Inr m"
  by (cases xs) (auto simp: dict_max_key_def dict_get_all_ok py_max_key_def dict_get_def)

lemma dict_get_dom: "k \<in> dom (map_of d) \<Longrightarrow> dict_get d k = Inr (the (map_of d k))"
  by (auto simp: dict_get_def)

lemma py_max_key_id: "xs \<noteq> [] \<Longrightarrow> py_max_key id xs = Inr (Max (set xs))"
proof -
  assume "xs \<noteq> []"
  then obtain m where m: "py_max_key id xs = Inr m"
    using py_max_key_Cons_Inr [of id] by (cases xs) blast+
  from py_max_key_Inr [OF m] have "m = Max (set xs)" by (intro Max_eqI [symmetric]) auto
  with m show ?thesis by simp
qed

lemma sum_list_map_mset_eq:
  "mset ys = mset xs \<Longrightarrow> sum_list (map f ys) = (sum_list (map f xs) :: 'b::comm_monoid_add)"
proof -
  assume m: "mset ys = mset xs"
  have "sum_list (map f ys) = sum_mset (image_mset f (mset ys))" by (simp only: mset_map [symmetric] sum_mset_sum_list)
  also have "\<dots> = sum_list (map f xs)" by (simp only: m mset_map [symmetric] sum_mset_sum_list)
  finally show ?thesis .
qed

lemma sorted_prefix_dominates:
  assumes "sorted (map (\<lambda>u. - int (f u)) ys)" "u \<in> set (drop k ys)" "w \<in> set (take k ys)"
  shows "f u \<le> (f w :: nat)"
proof -
  have "sorted (map (\<lambda>u. - int (f u)) (take k ys) @ map (\<lambda>u. - int (f u)) (drop k ys))"
    using assms(1) by (simp only: map_append [symmetric] append_take_drop_id)
  with assms(2,3) show ?thesis by (auto simp: sorted_append)
qed

lemma acyclic_add_sink:
  assumes ac: "acyclic R" and x: "x \<notin> Domain R" "x \<notin> U"
  shows "acyclic (R \<union> (\<lambda>u. (u, x)) ` U)"
proof -
  let ?R = "R \<union> (\<lambda>u. (u, x)) ` U"
  have "(y, z) \<in> ?R\<^sup>+ \<Longrightarrow> y \<noteq> x \<and> ((y, z) \<in> R\<^sup>+ \<or> z = x)" for y z
  proof (induction rule: trancl_induct)
    case (base z)
    then show ?case using x by auto
  next
    case (step z z')
    then show ?case using x by (auto intro: trancl_into_trancl)
  qed
  with ac show ?thesis unfolding acyclic_def by blast
qed

lemma finite_Image_rel: "finite R \<Longrightarrow> finite (R `` A)"
  by (rule finite_subset [of _ "snd ` R"]) force+

lemma sum_list_swap:
  "sum_list (map (\<lambda>x. sum_list (map (f x) B)) A) = (sum_list (map (\<lambda>y. sum_list (map (\<lambda>x. f x y) A)) B) :: nat)"
  by (induction A) (simp_all add: sum_list_addf)

lemma count_list_sum: "count_list xs v = sum_list (map (\<lambda>x. if v = x then 1 else 0) xs)"
  by (induction xs) auto

lemma count_list_sum': "count_list xs v = sum_list (map (\<lambda>x. if x = v then 1 else 0) xs)"
  by (induction xs) auto

lemma map_case_fst: "map (\<lambda>(x, _). g x) xs = map g (map fst xs)"
  by (induction xs) auto

lemma sum_list_pos_ex: "0 < sum_list (map g xs) \<Longrightarrow> \<exists>x \<in> set xs. 0 < (g x :: nat)"
  by (induction xs) auto

lemma max_key_from_split:
  "\<exists>ys zs. b # xs = ys @ max_key_from f b xs # zs \<and> (\<forall>y \<in> set ys. f y < f (max_key_from f b xs))"
proof (induction xs arbitrary: b)
  case Nil
  show ?case by (intro exI [of _ "[]"]) simp
next
  case (Cons x xs)
  show ?case
  proof (cases "f b < f x")
    case True
    from Cons.IH [of x] obtain ys zs where s: "x # xs = ys @ max_key_from f x xs # zs"
      and lt: "\<forall>y \<in> set ys. f y < f (max_key_from f x xs)" by blast
    have bl: "f b < f (max_key_from f x xs)" using True max_key_from_ge_best [of f x xs] by simp
    have e: "max_key_from f b (x # xs) = max_key_from f x xs" using True by simp
    show ?thesis unfolding e
    proof (intro exI conjI)
      show "b # x # xs = (b # ys) @ max_key_from f x xs # zs" using s by simp
      show "\<forall>y \<in> set (b # ys). f y < f (max_key_from f x xs)" using lt bl by simp
    qed
  next
    case False
    from Cons.IH [of b] obtain ys zs where s: "b # xs = ys @ max_key_from f b xs # zs"
      and lt: "\<forall>y \<in> set ys. f y < f (max_key_from f b xs)" by blast
    have e: "max_key_from f b (x # xs) = max_key_from f b xs" using False by simp
    show ?thesis unfolding e
    proof (cases ys)
      case Nil
      from s have "b = max_key_from f b xs" unfolding Nil append_Nil list.inject by (rule conjunct1)
      then have "b # x # xs = [] @ max_key_from f b xs # (x # xs)" by simp
      then show "\<exists>ys zs. b # x # xs = ys @ max_key_from f b xs # zs \<and> (\<forall>y \<in> set ys. f y < f (max_key_from f b xs))"
        by (intro exI [of _ "[]"] exI [of _ "x # xs"]) simp
    next
      case (Cons b' ys')
      from s have "b = b' \<and> xs = ys' @ max_key_from f b xs # zs"
        unfolding Cons append_Cons list.inject .
      then have b': "b' = b" and xs: "xs = ys' @ max_key_from f b xs # zs" by (blast, blast)
      from lt Cons b' have bl: "f b < f (max_key_from f b xs)" by simp
      with False have xl: "f x < f (max_key_from f b xs)" by simp
      have "b # x # xs = (b # x # ys') @ max_key_from f b xs # zs" using xs by simp
      moreover have "\<forall>y \<in> set (b # x # ys'). f y < f (max_key_from f b xs)" using lt Cons bl xl by simp
      ultimately show "\<exists>ys zs. b # x # xs = ys @ max_key_from f b xs # zs \<and> (\<forall>y \<in> set ys. f y < f (max_key_from f b xs))"
        by blast
    qed
  qed
qed

lemma py_max_key_first:
  assumes m: "py_max_key f xs = Inr m" and s: "sorted xs" and d: "distinct xs"
    and y: "y \<in> set xs" and lt: "y < m"
  shows "f y < f m"
proof -
  obtain b xs' where xs: "xs = b # xs'" and mm: "m = max_key_from f b xs'"
    using m by (cases xs) (auto simp: py_max_key_def)
  from max_key_from_split [of b xs' f] obtain ys zs where sp: "xs = ys @ m # zs"
    and f: "\<forall>y \<in> set ys. f y < f m" using xs mm by auto
  have "\<forall>z \<in> set zs. m \<le> z" using s sp by (simp add: sorted_append)
  with y lt sp have "y \<in> set ys" by force
  with f show ?thesis by blast
qed

lemma max_key_from_map: "max_key_from f (g b) (map g xs) = g (max_key_from (f \<circ> g) b xs)"
  by (induction xs arbitrary: b) auto

lemma dict_max_key_first:
  assumes m: "dict_max_key d xs = Inr m" and s: "sorted xs" and dx: "distinct xs"
    and y: "y \<in> set xs" and lt: "y < m"
  shows "the (map_of d y) < the (map_of d m)"
proof -
  from m obtain ks p where ks: "dict_get_all d xs = Inr ks"
    and p: "py_max_key snd (zip xs ks) = Inr p" and mp: "m = fst p"
    by (auto simp: dict_max_key_def bind_res_def split: list.splits sum.splits)
  from dict_get_all_Inr [OF ks] have ks_eq: "ks = map (\<lambda>k. the (map_of d k)) xs" by auto
  let ?g = "\<lambda>k. (k, the (map_of d k))"
  have z: "zip xs ks = map ?g xs" by (simp add: ks_eq zip_map2 zip_same_conv_map)
  obtain b xs' where xs: "xs = b # xs'" using y by (cases xs) auto
  have "py_max_key snd (zip xs ks) = Inr (max_key_from snd (?g b) (map ?g xs'))"
    unfolding z unfolding xs by (simp add: py_max_key_def)
  also have "max_key_from snd (?g b) (map ?g xs') = ?g (max_key_from (snd \<circ> ?g) b xs')"
    by (rule max_key_from_map)
  finally have "m = max_key_from (snd \<circ> ?g) b xs'" using p mp by simp
  then have "py_max_key (\<lambda>k. the (map_of d k)) xs = Inr m"
    by (simp add: py_max_key_def xs o_def)
  from py_max_key_first [OF this s dx y lt] show ?thesis .
qed

end
