(* ===== verification/Graph_Builder.thy ===== *)
theory Graph_Builder
  imports Prelude
begin

text \<open>
  The Graph Builder, \<open>build_graph\<close> of src/low_level_problem.py: one pass over
  the edge list appends \<open>(v, w)\<close> to \<open>adj[u]\<close> and \<open>(u, w)\<close> to
  \<open>radj[v]\<close> (two \<open>defaultdict(list)\<close>s) and adds both endpoints to the
  node set; a second pass gives every node a key in both maps; the nodes are
  returned sorted. The returned triple is the record \<open>graph\<close>.
  The abstract view of an edge list is its list of successors and predecessors of a
  vertex (\<open>succs\<close>, \<open>preds\<close>, multi-edges kept) and its set of endpoints; the
  lemmas show that the built maps are exactly these views and that the key sets of
  both maps are the node set (the contract of \<^verbatim>\<open>build_graph\<close> in the spec).
\<close>

record graph =
  g_adj :: adjmap
  g_radj :: adjmap
  g_nodes :: "vertex list"

text \<open>The first loop, \<^verbatim>\<open>for u, v, w in edges: ...\<close>; the node set is a list
  without repetitions, extended by \<open>List.insert\<close> as \<open>nodes.add\<close> does.\<close>

fun add_edges :: "edge list \<Rightarrow> adjmap \<times> adjmap \<times> vertex list \<Rightarrow> adjmap \<times> adjmap \<times> vertex list" where
  "add_edges [] st = st"
| "add_edges ((u, v, w) # es) (adj, radj, ns) =
     add_edges es (dd_append adj u (v, w), dd_append radj v (u, w), List.insert v (List.insert u ns))"

text \<open>The second loop, \<^verbatim>\<open>for n in list(nodes): adj.setdefault(n, []); radj.setdefault(n, [])\<close>.\<close>

fun ensure_keys :: "vertex list \<Rightarrow> adjmap \<times> adjmap \<Rightarrow> adjmap \<times> adjmap" where
  "ensure_keys [] st = st"
| "ensure_keys (n # ns) (adj, radj) = ensure_keys ns (set_default adj n, set_default radj n)"

definition build_graph :: "edge list \<Rightarrow> graph" where
  "build_graph edges =
     (case add_edges edges ([], [], []) of (adj, radj, ns) \<Rightarrow>
       (case ensure_keys ns (adj, radj) of (adj', radj') \<Rightarrow>
          \<lparr>g_adj = adj', g_radj = radj', g_nodes = sort ns\<rparr>))"

subsection \<open>The abstract graph of an edge list\<close>

definition succs :: "edge list \<Rightarrow> vertex \<Rightarrow> (vertex \<times> weight) list" where
  "succs es u = map (\<lambda>(_, v, w). (v, w)) (filter (\<lambda>(u', _, _). u' = u) es)"

definition preds :: "edge list \<Rightarrow> vertex \<Rightarrow> (vertex \<times> weight) list" where
  "preds es v = map (\<lambda>(u, _, w). (u, w)) (filter (\<lambda>(_, v', _). v' = v) es)"

definition endpoints :: "edge list \<Rightarrow> vertex set" where
  "endpoints es = fst ` set es \<union> (fst \<circ> snd) ` set es"

definition edge_rel :: "edge list \<Rightarrow> vertex rel" where
  "edge_rel es = {(u, v). \<exists>w. (u, v, w) \<in> set es}"

text \<open>A built graph is well formed when the keys of both maps are its nodes and
  every adjacency entry names a node: what \<open>topo_order\<close> and
  \<open>count_paths_from_source\<close> need so that no \<open>indeg[v]\<close> or \<open>ways[v]\<close>
  raises \<open>KeyError\<close>.\<close>

definition graph_wf :: "graph \<Rightarrow> bool" where
  "graph_wf g \<longleftrightarrow> distinct (g_nodes g)
     \<and> dom (map_of (g_adj g)) = set (g_nodes g) \<and> dom (map_of (g_radj g)) = set (g_nodes g)
     \<and> (\<forall>u \<in> set (g_nodes g). fst ` set (dd_get (g_adj g) u) \<subseteq> set (g_nodes g))
     \<and> (\<forall>u \<in> set (g_nodes g). fst ` set (dd_get (g_radj g) u) \<subseteq> set (g_nodes g))"

lemma succs_simps [simp]:
  "succs [] u = []"
  "succs ((a, b, w) # es) u = (if a = u then (b, w) # succs es u else succs es u)"
  by (simp_all add: succs_def)

lemma preds_simps [simp]:
  "preds [] v = []"
  "preds ((a, b, w) # es) v = (if b = v then (a, w) # preds es v else preds es v)"
  by (simp_all add: preds_def)

lemma endpoints_simps [simp]:
  "endpoints [] = {}"
  "endpoints ((a, b, w) # es) = insert a (insert b (endpoints es))"
  by (auto simp: endpoints_def)

lemma edge_rel_simps [simp]:
  "edge_rel [] = {}"
  "edge_rel ((a, b, w) # es) = insert (a, b) (edge_rel es)"
  by (auto simp: edge_rel_def)

lemma edge_rel_succs: "(u, v) \<in> edge_rel es \<longleftrightarrow> v \<in> fst ` set (succs es u)"
  by (force simp: edge_rel_def succs_def)

lemma edge_rel_preds: "(u, v) \<in> edge_rel es \<longleftrightarrow> u \<in> fst ` set (preds es v)"
  by (force simp: edge_rel_def preds_def)

lemma edge_rel_endpoints: "(u, v) \<in> edge_rel es \<Longrightarrow> u \<in> endpoints es \<and> v \<in> endpoints es"
  by (force simp: edge_rel_def endpoints_def)

subsection \<open>The two loops\<close>

lemma add_edges_adj:
  "dd_get (fst (add_edges es (adj, radj, ns))) u = dd_get adj u @ succs es u"
  by (induction es arbitrary: adj radj ns) (auto simp: dict_simps)

lemma add_edges_radj:
  "dd_get (fst (snd (add_edges es (adj, radj, ns)))) u = dd_get radj u @ preds es u"
  by (induction es arbitrary: adj radj ns) (auto simp: dict_simps)

lemma add_edges_adj_keys:
  "dom (map_of (fst (add_edges es (adj, radj, ns)))) = dom (map_of adj) \<union> fst ` set es"
proof (induction es arbitrary: adj radj ns)
  case (Cons e es)
  then show ?case by (cases e) (simp add: dict_simps)
qed simp

lemma add_edges_radj_keys:
  "dom (map_of (fst (snd (add_edges es (adj, radj, ns))))) = dom (map_of radj) \<union> (fst \<circ> snd) ` set es"
proof (induction es arbitrary: adj radj ns)
  case (Cons e es)
  then show ?case by (cases e) (simp add: dict_simps)
qed simp

lemma add_edges_nodes:
  "set (snd (snd (add_edges es (adj, radj, ns)))) = set ns \<union> endpoints es"
  by (induction es arbitrary: adj radj ns) auto

lemma add_edges_nodes_distinct:
  "distinct ns \<Longrightarrow> distinct (snd (snd (add_edges es (adj, radj, ns))))"
  by (induction es arbitrary: adj radj ns) auto

lemma ensure_keys_get:
  "dd_get (fst (ensure_keys ns (adj, radj))) u = dd_get adj u"
  "dd_get (snd (ensure_keys ns (adj, radj))) u = dd_get radj u"
  by (induction ns arbitrary: adj radj) (auto simp: dict_simps)

lemma ensure_keys_keys:
  "dom (map_of (fst (ensure_keys ns (adj, radj)))) = dom (map_of adj) \<union> set ns"
  "dom (map_of (snd (ensure_keys ns (adj, radj)))) = dom (map_of radj) \<union> set ns"
  by (induction ns arbitrary: adj radj) (auto simp: dict_simps)

lemma build_graph_eq:
  "build_graph es =
     (let st = add_edges es ([], [], []); ks = ensure_keys (snd (snd st)) (fst st, fst (snd st))
      in \<lparr>g_adj = fst ks, g_radj = snd ks, g_nodes = sort (snd (snd st))\<rparr>)"
  by (simp add: build_graph_def split: prod.split)

lemma succs_endpoints: "fst ` set (succs es u) \<subseteq> endpoints es"
  by (force simp: succs_def endpoints_def)

lemma preds_endpoints: "fst ` set (preds es v) \<subseteq> endpoints es"
  by (force simp: preds_def endpoints_def)

subsection \<open>The contract of \<open>build_graph\<close>\<close>

lemma build_graph_adj: "dd_get (g_adj (build_graph es)) u = succs es u"
  by (simp add: build_graph_eq Let_def ensure_keys_get add_edges_adj)

lemma build_graph_radj: "dd_get (g_radj (build_graph es)) v = preds es v"
  by (simp add: build_graph_eq Let_def ensure_keys_get add_edges_radj)

lemma build_graph_nodes:
  "set (g_nodes (build_graph es)) = endpoints es \<and> sorted (g_nodes (build_graph es))
     \<and> distinct (g_nodes (build_graph es))"
  by (simp add: build_graph_eq Let_def add_edges_nodes add_edges_nodes_distinct)

lemma build_graph_keys:
  "dom (map_of (g_adj (build_graph es))) = endpoints es
     \<and> dom (map_of (g_radj (build_graph es))) = endpoints es"
  by (auto simp: build_graph_eq Let_def ensure_keys_keys add_edges_adj_keys add_edges_radj_keys
      add_edges_nodes endpoints_def)

lemma build_graph_wf: "graph_wf (build_graph es)"
  unfolding graph_wf_def
  using build_graph_nodes [of es] build_graph_keys [of es] succs_endpoints [of es] preds_endpoints [of es]
  by (simp add: build_graph_adj build_graph_radj)

lemma finite_edge_rel: "finite (edge_rel es)"
proof -
  have "edge_rel es = (\<lambda>(u, v, w). (u, v)) ` set es" by (force simp: edge_rel_def)
  then show ?thesis by simp
qed


lemma count_succs_preds: "count_list (map fst (succs es u)) v = count_list (map fst (preds es v)) u"
proof (induction es)
  case (Cons e es)
  then show ?case by (cases e) auto
qed simp

subsection \<open>Edge lists built by concatenation\<close>

lemma finite_endpoints [simp]: "finite (endpoints es)"
  by (simp add: endpoints_def)

lemma endpoints_append [simp]: "endpoints (xs @ ys) = endpoints xs \<union> endpoints ys"
  by (auto simp: endpoints_def)

lemma edge_rel_append [simp]: "edge_rel (xs @ ys) = edge_rel xs \<union> edge_rel ys"
  by (auto simp: edge_rel_def)

lemma preds_append [simp]: "preds (xs @ ys) v = preds xs v @ preds ys v"
  by (simp add: preds_def)

lemma preds_not_endpoint: "v \<notin> endpoints es \<Longrightarrow> preds es v = []"
  using preds_endpoints [of es v] edge_rel_preds [of _ v es] edge_rel_endpoints [of _ v es]
  by (cases "preds es v") force+

lemma endpoints_Nil_iff: "endpoints es = {} \<longleftrightarrow> es = []"
  by (cases es) auto

lemma edge_rel_sink_edges: "edge_rel (map (\<lambda>u. (u, x, w)) us) = (\<lambda>u. (u, x)) ` set us"
  by (induction us) auto

lemma preds_sink_edges:
  "preds (map (\<lambda>u. (u, x, w)) us) v = (if v = x then map (\<lambda>u. (u, w)) us else [])"
  by (induction us) auto

lemma endpoints_sink_edges: "us \<noteq> [] \<Longrightarrow> endpoints (map (\<lambda>u. (u, x, w)) us) = insert x (set us)"
  by (auto simp: endpoints_def image_image image_constant_conv)

lemma build_graph_Nil: "build_graph [] = \<lparr>g_adj = [], g_radj = [], g_nodes = []\<rparr>"
  by (simp add: build_graph_def)

lemma succs_not_endpoint: "u \<notin> endpoints es \<Longrightarrow> succs es u = []"
  using succs_endpoints [of es u] edge_rel_succs [of u _ es] edge_rel_endpoints [of u _ es]
  by (cases "succs es u") force+

lemma succs_mem: "(x, w) \<in> set (succs es u) \<Longrightarrow> (u, x, w) \<in> set es"
  by (auto simp: succs_def)

text \<open>
  C2. The contract of \<open>build_graph\<close>: \<open>adj[u]\<close> lists the \<open>(v, w)\<close> of the
  edges \<open>u \<rightarrow> v\<close> and \<open>radj[v]\<close> the \<open>(u, w)\<close> of the edges
  \<open>u \<rightarrow> v\<close>, in input order and with duplicates kept; every endpoint, and
  nothing else, is a key of both maps; the node list is the sorted list of the
  endpoints without repetitions.
\<close>

theorem build_graph_contract:
  "dd_get (g_adj (build_graph es)) u = succs es u
   \<and> dd_get (g_radj (build_graph es)) u = preds es u
   \<and> dom (map_of (g_adj (build_graph es))) = endpoints es
   \<and> dom (map_of (g_radj (build_graph es))) = endpoints es
   \<and> set (g_nodes (build_graph es)) = endpoints es
   \<and> sorted (g_nodes (build_graph es)) \<and> distinct (g_nodes (build_graph es))"
  using build_graph_adj [of es u] build_graph_radj [of es u] build_graph_keys [of es]
    build_graph_nodes [of es]
  by simp

end
