(* ===== verification/Topo_Sort.thy ===== *)
theory Topo_Sort
  imports Graph_Builder
begin

text \<open>
  The Topological Sorter, \<open>topo_order\<close> of src/low_level_problem.py (Kahn's
  algorithm). The in-degree dict \<open>indeg\<close> is an association list; \<open>q\<close>, a
  \<open>deque\<close> used only with \<open>popleft\<close> and \<open>append\<close>, is a list popped at
  the front and extended at the back. The while loop is \<open>kahn_loop\<close>, its inner
  \<open>for\<close> loop \<open>relax\<close>. The loop terminates on every input (also on cyclic
  graphs): each round removes the head of the queue and each vertex it appends
  costs one unit of positive in-degree, so the queue length plus the sum of the
  positive in-degrees decreases (\<open>indeg_weight\<close>, \<open>relax_weight\<close>).
  \<open>KeyError\<close> is raised by \<open>indeg[v]\<close> for a successor that is not in
  \<open>nodes\<close>; the lemmas show it never happens on a well-formed graph, and that an
  order that is returned is a permutation of the nodes in which every edge points
  forward.
\<close>

type_synonym indeg = "(vertex, int) dict"

text \<open>\<^verbatim>\<open>for v, _ in adj[u]: indeg[v] += 1\<close>\<close>

fun count_indeg_edges :: "(vertex \<times> weight) list \<Rightarrow> indeg \<Rightarrow> py_error + indeg" where
  "count_indeg_edges [] d = Inr d"
| "count_indeg_edges ((v, _) # vs) d =
     (case map_of d v of
        None \<Rightarrow> Inl (KeyError v)
      | Some k \<Rightarrow> count_indeg_edges vs (AList.update v (k + 1) d))"

text \<open>\<^verbatim>\<open>for u in nodes: ...\<close>\<close>

fun count_indeg :: "adjmap \<Rightarrow> vertex list \<Rightarrow> indeg \<Rightarrow> py_error + indeg" where
  "count_indeg adj [] d = Inr d"
| "count_indeg adj (u # us) d =
     (case count_indeg_edges (dd_get adj u) d of
        Inl e \<Rightarrow> Inl e
      | Inr d' \<Rightarrow> count_indeg adj us d')"

text \<open>\<^verbatim>\<open>for v, _ in adj[u]: indeg[v] -= 1; if indeg[v] == 0: q.append(v)\<close>\<close>

fun relax :: "(vertex \<times> weight) list \<Rightarrow> indeg \<Rightarrow> vertex list \<Rightarrow> py_error + indeg \<times> vertex list" where
  "relax [] d q = Inr (d, q)"
| "relax ((v, _) # vs) d q =
     (case map_of d v of
        None \<Rightarrow> Inl (KeyError v)
      | Some k \<Rightarrow> relax vs (AList.update v (k - 1) d) (if k - 1 = 0 then q @ [v] else q))"

definition indeg_weight :: "indeg \<Rightarrow> nat" where
  "indeg_weight d = sum_list (map (\<lambda>(_, k). nat k) d)"

lemma indeg_weight_update:
  "map_of d v = Some k \<Longrightarrow> indeg_weight (AList.update v x d) + nat k = indeg_weight d + nat x"
  by (induction d) (auto simp: indeg_weight_def split: if_splits)

lemma relax_weight:
  "relax vs d q = Inr (d', q') \<Longrightarrow> length q' + indeg_weight d' \<le> length q + indeg_weight d"
proof (induction vs d q rule: relax.induct)
  case (2 v w vs d q)
  then obtain k where k: "map_of d v = Some k"
    and r: "relax vs (AList.update v (k - 1) d) (if k - 1 = 0 then q @ [v] else q) = Inr (d', q')"
    by (auto split: option.splits)
  from "2.IH" [OF k r] indeg_weight_update [OF k, of "k - 1"] show ?case
    by (auto split: if_splits)
qed simp

text \<open>\<^verbatim>\<open>while q: u = q.popleft(); order.append(u); ...\<close>\<close>

function kahn_loop :: "adjmap \<Rightarrow> indeg \<Rightarrow> vertex list \<Rightarrow> vertex list \<Rightarrow> py_error + vertex list" where
  "kahn_loop adj d [] order = Inr order"
| "kahn_loop adj d (u # q) order =
     (case relax (dd_get adj u) d q of
        Inl e \<Rightarrow> Inl e
      | Inr (d', q') \<Rightarrow> kahn_loop adj d' q' (order @ [u]))"
  by pat_completeness auto
termination
  by (relation "measure (\<lambda>(adj, d, q, order). length q + indeg_weight d)")
     (auto dest!: relax_weight)

definition topo_order :: "adjmap \<Rightarrow> vertex list \<Rightarrow> py_error + vertex list" where
  "topo_order adj nodes =
     (case count_indeg adj nodes (map (\<lambda>n. (n, 0)) nodes) of
        Inl e \<Rightarrow> Inl e
      | Inr d \<Rightarrow>
          (case kahn_loop adj d (filter (\<lambda>n. map_of d n = Some 0) nodes) [] of
             Inl e \<Rightarrow> Inl e
           | Inr order \<Rightarrow> if length order \<noteq> length nodes then Inl NotADag else Inr order))"

subsection \<open>The in-degree count\<close>

definition out_count :: "adjmap \<Rightarrow> vertex \<Rightarrow> vertex \<Rightarrow> nat" where
  "out_count adj u v = count_list (map fst (dd_get adj u)) v"

lemma map_of_update_Some:
  "map_of d v = Some k \<Longrightarrow> map_of (AList.update v x d) = (map_of d)(v \<mapsto> x)"
  by (simp add: update_conv')

lemma count_indeg_edges_ok:
  "fst ` set vs \<subseteq> dom (map_of d) \<Longrightarrow>
     \<exists>d'. count_indeg_edges vs d = Inr d'
       \<and> (\<forall>v. map_of d' v = map_option (\<lambda>k. k + int (count_list (map fst vs) v)) (map_of d v))"
proof (induction vs arbitrary: d)
  case Nil
  then show ?case by (simp add: option.map_ident)
next
  case (Cons e vs)
  obtain v w where e: "e = (v, w)" by (cases e)
  from Cons.prems e obtain k where k: "map_of d v = Some k" by auto
  let ?d1 = "AList.update v (k + 1) d"
  have m1: "map_of ?d1 = (map_of d)(v \<mapsto> k + 1)" using k by (rule map_of_update_Some)
  from Cons.prems e have "fst ` set vs \<subseteq> dom (map_of ?d1)" by (auto simp: m1)
  from Cons.IH [OF this] obtain d' where r: "count_indeg_edges vs ?d1 = Inr d'"
    and d': "\<forall>x. map_of d' x = map_option (\<lambda>k. k + int (count_list (map fst vs) x)) (map_of ?d1 x)"
    by blast
  show ?case
    using r d' k by (auto simp: e m1)
qed

lemma count_indeg_ok:
  "(\<forall>u \<in> set us. fst ` set (dd_get adj u) \<subseteq> dom (map_of d)) \<Longrightarrow>
     \<exists>d'. count_indeg adj us d = Inr d'
       \<and> (\<forall>v. map_of d' v = map_option (\<lambda>k. k + int (sum_list (map (\<lambda>u. out_count adj u v) us))) (map_of d v))"
proof (induction us arbitrary: d)
  case Nil
  then show ?case by (simp add: option.map_ident)
next
  case (Cons u us)
  from Cons.prems obtain d1 where r1: "count_indeg_edges (dd_get adj u) d = Inr d1"
    and m1: "\<forall>v. map_of d1 v = map_option (\<lambda>k. k + int (out_count adj u v)) (map_of d v)"
    using count_indeg_edges_ok [of "dd_get adj u" d] by (auto simp: out_count_def)
  have "dom (map_of d1) = dom (map_of d)" using m1 by (auto simp: dom_def)
  with Cons.prems obtain d' where r: "count_indeg adj us d1 = Inr d'"
    and m: "\<forall>v. map_of d' v = map_option (\<lambda>k. k + int (sum_list (map (\<lambda>u. out_count adj u v) us))) (map_of d1 v)"
    using Cons.IH [of d1] by auto
  show ?case
    using r r1 m m1 by (auto simp: option.map_comp o_def add.assoc)
qed

lemma relax_ok:
  "fst ` set vs \<subseteq> dom (map_of d) \<Longrightarrow>
     \<exists>d' new. relax vs d q = Inr (d', q @ new)
       \<and> (\<forall>v. map_of d' v = map_option (\<lambda>k. k - int (count_list (map fst vs) v)) (map_of d v))
       \<and> distinct new
       \<and> set new = {v \<in> fst ` set vs. \<exists>k. map_of d v = Some k \<and> 1 \<le> k \<and> k \<le> int (count_list (map fst vs) v)}"
proof (induction vs arbitrary: d q)
  case Nil
  then show ?case by (simp add: option.map_ident)
next
  case (Cons e vs)
  obtain v w where e: "e = (v, w)" by (cases e)
  from Cons.prems e obtain k where k: "map_of d v = Some k" by auto
  let ?d1 = "AList.update v (k - 1) d"
  let ?q1 = "if k - 1 = 0 then q @ [v] else q"
  have m1: "map_of ?d1 = (map_of d)(v \<mapsto> k - 1)" using k by (rule map_of_update_Some)
  from Cons.prems e have "fst ` set vs \<subseteq> dom (map_of ?d1)" by (auto simp: m1)
  from Cons.IH [OF this, of ?q1] obtain d' new1 where r: "relax vs ?d1 ?q1 = Inr (d', ?q1 @ new1)"
    and d': "\<forall>x. map_of d' x = map_option (\<lambda>k. k - int (count_list (map fst vs) x)) (map_of ?d1 x)"
    and dn: "distinct new1"
    and sn: "set new1 = {x \<in> fst ` set vs. \<exists>k. map_of ?d1 x = Some k \<and> 1 \<le> k \<and> k \<le> int (count_list (map fst vs) x)}"
    by blast
  let ?new = "(if k = 1 then [v] else []) @ new1"
  have "relax (e # vs) d q = Inr (d', q @ ?new)"
    using r k by (simp add: e)
  moreover have "\<forall>x. map_of d' x = map_option (\<lambda>k. k - int (count_list (map fst (e # vs)) x)) (map_of d x)"
    using d' k by (auto simp: e m1)
  moreover have "distinct ?new"
    using dn sn by (auto simp: m1)
  moreover have "set ?new = {x \<in> fst ` set (e # vs). \<exists>k. map_of d x = Some k \<and> 1 \<le> k \<and> k \<le> int (count_list (map fst (e # vs)) x)}"
  proof (rule set_eqI)
    fix x
    show "x \<in> set ?new \<longleftrightarrow> x \<in> {x \<in> fst ` set (e # vs). \<exists>k. map_of d x = Some k \<and> 1 \<le> k \<and> k \<le> int (count_list (map fst (e # vs)) x)}"
    proof (cases "x = v")
      case True
      have "count_list (map fst vs) v = 0 \<longleftrightarrow> v \<notin> fst ` set vs"
        by (simp add: count_list_0_iff)
      with True show ?thesis using k by (auto simp: e sn m1)
    next
      case False
      then show ?thesis by (auto simp: e sn m1)
    qed
  qed
  ultimately show ?case by blast
qed

subsection \<open>The invariant of Kahn's loop\<close>

text \<open>
  \<open>pending P v\<close> counts the edges into \<open>v\<close> from nodes not yet output
  (not in \<open>P\<close>), with multiplicity; the loop keeps \<open>indeg[v]\<close> equal to it,
  keeps in the queue exactly the unvisited nodes with no pending edge, and keeps the
  output a topological prefix: every predecessor of an output node was output before it.
\<close>

definition adj_closed :: "adjmap \<Rightarrow> vertex list \<Rightarrow> bool" where
  "adj_closed adj nodes \<longleftrightarrow> (\<forall>u \<in> set nodes. fst ` set (dd_get adj u) \<subseteq> set nodes)"

definition pending :: "adjmap \<Rightarrow> vertex list \<Rightarrow> vertex set \<Rightarrow> vertex \<Rightarrow> nat" where
  "pending adj nodes P v = (\<Sum>u \<in> set nodes - P. out_count adj u v)"

definition topo_prefix :: "adjmap \<Rightarrow> vertex list \<Rightarrow> vertex list \<Rightarrow> bool" where
  "topo_prefix adj nodes order \<longleftrightarrow>
     (\<forall>i < length order. \<forall>u \<in> set nodes. order ! i \<in> fst ` set (dd_get adj u) \<longrightarrow> u \<in> set (take i order))"

definition kahn_inv :: "adjmap \<Rightarrow> vertex list \<Rightarrow> indeg \<Rightarrow> vertex list \<Rightarrow> vertex list \<Rightarrow> bool" where
  "kahn_inv adj nodes d q order \<longleftrightarrow>
     distinct (order @ q) \<and> set (order @ q) \<subseteq> set nodes
     \<and> (\<forall>v \<in> set nodes. map_of d v = Some (int (pending adj nodes (set order) v)))
     \<and> (\<forall>v \<in> set nodes - set order. v \<in> set q \<longleftrightarrow> pending adj nodes (set order) v = 0)
     \<and> topo_prefix adj nodes order"

lemma out_count_pos_iff: "0 < out_count adj u v \<longleftrightarrow> v \<in> fst ` set (dd_get adj u)"
  using count_list_0_iff [of "map fst (dd_get adj u)" v] by (auto simp: out_count_def)

lemma pending_insert:
  "u \<in> set nodes \<Longrightarrow> u \<notin> P \<Longrightarrow>
     pending adj nodes (insert u P) v + out_count adj u v = pending adj nodes P v"
proof -
  assume u: "u \<in> set nodes" "u \<notin> P"
  then have eq: "set nodes - P = insert u (set nodes - insert u P)" by blast
  have "pending adj nodes P v = out_count adj u v + (\<Sum>w \<in> set nodes - insert u P. out_count adj w v)"
    unfolding pending_def eq by (rule sum.insert) simp_all
  then show ?thesis by (simp add: pending_def)
qed

lemma out_count_le_pending:
  "u \<in> set nodes - P \<Longrightarrow> out_count adj u v \<le> pending adj nodes P v"
  unfolding pending_def by (rule member_le_sum) simp_all

lemma pending_zero_iff:
  "pending adj nodes P v = 0 \<longleftrightarrow> (\<forall>u \<in> set nodes - P. v \<notin> fst ` set (dd_get adj u))"
  by (simp add: pending_def out_count_pos_iff [symmetric])

lemma topo_prefix_pending:
  assumes tp: "topo_prefix adj nodes order" and v: "v \<in> set order"
  shows "pending adj nodes (set order) v = 0"
  unfolding pending_zero_iff
proof
  fix u
  assume u: "u \<in> set nodes - set order"
  from v obtain i where i: "i < length order" "order ! i = v" by (auto simp: in_set_conv_nth)
  show "v \<notin> fst ` set (dd_get adj u)"
  proof
    assume "v \<in> fst ` set (dd_get adj u)"
    with tp i u have "u \<in> set (take i order)" by (auto simp: topo_prefix_def)
    then have "u \<in> set order" by (rule in_set_takeD)
    with u show False by simp
  qed
qed

lemma topo_prefix_snoc:
  assumes tp: "topo_prefix adj nodes order" and z: "pending adj nodes (set order) u = 0"
  shows "topo_prefix adj nodes (order @ [u])"
  unfolding topo_prefix_def
proof (intro allI impI ballI)
  fix i w
  assume i: "i < length (order @ [u])" and w: "w \<in> set nodes"
    and e: "(order @ [u]) ! i \<in> fst ` set (dd_get adj w)"
  show "w \<in> set (take i (order @ [u]))"
  proof (cases "i < length order")
    case True
    with e have "order ! i \<in> fst ` set (dd_get adj w)" by (simp add: nth_append)
    with tp True w have "w \<in> set (take i order)" by (auto simp: topo_prefix_def)
    with True show ?thesis by simp
  next
    case False
    with i have i_eq: "i = length order" by simp
    with e have "u \<in> fst ` set (dd_get adj w)" by simp
    with z w have "w \<in> set order" by (auto simp: pending_zero_iff)
    with i_eq show ?thesis by simp
  qed
qed


lemma relax_new_iff:
  assumes pi: "pending adj nodes (insert u P) v + out_count adj u v = pending adj nodes P v"
    and cnt: "v \<in> set nodes \<Longrightarrow> map_of d v = Some (int (pending adj nodes P v))"
    and tgt: "fst ` set (dd_get adj u) \<subseteq> set nodes"
  shows "(v \<in> fst ` set (dd_get adj u) \<and> (\<exists>k. map_of d v = Some k \<and> 1 \<le> k \<and> k \<le> int (count_list (map fst (dd_get adj u)) v)))
     \<longleftrightarrow> v \<in> set nodes \<and> 0 < pending adj nodes P v \<and> pending adj nodes (insert u P) v = 0"
proof (cases "v \<in> set nodes")
  case True
  have oc: "v \<in> fst ` set (dd_get adj u) \<longleftrightarrow> 0 < out_count adj u v"
    by (simp add: out_count_pos_iff)
  from True cnt have "map_of d v = Some (int (pending adj nodes P v))" by simp
  with True oc pi show ?thesis by (auto simp: out_count_def)
next
  case False
  with tgt show ?thesis by auto
qed


lemma kahn_new_fresh:
  assumes inv: "kahn_inv adj nodes d (u # q) order"
    and new_iff: "\<And>v. v \<in> set new \<longleftrightarrow>
       v \<in> set nodes \<and> 0 < pending adj nodes (set order) v \<and> pending adj nodes (insert u (set order)) v = 0"
    and v: "v \<in> set new"
  shows "v \<notin> set (order @ u # q)"
proof
  assume w: "v \<in> set (order @ u # q)"
  from inv have sub: "set (order @ u # q) \<subseteq> set nodes"
    and que: "\<forall>v \<in> set nodes - set order. v \<in> set (u # q) \<longleftrightarrow> pending adj nodes (set order) v = 0"
    and tp: "topo_prefix adj nodes order"
    by (simp_all add: kahn_inv_def)
  from v new_iff have pos: "0 < pending adj nodes (set order) v" by simp
  show False
  proof (cases "v \<in> set order")
    case True
    with tp pos show False by (simp add: topo_prefix_pending)
  next
    case False
    with w sub have vn: "v \<in> set nodes - set order" by auto
    from False w have "v \<in> set (u # q)" by simp
    with que [rule_format, OF vn] have "pending adj nodes (set order) v = 0" by blast
    with pos show False by simp
  qed
qed

lemma kahn_inv_snoc:
  assumes inv: "kahn_inv adj nodes d (u # q) order"
    and u: "u \<in> set nodes" "u \<notin> set order" and u0: "pending adj nodes (set order) u = 0"
    and m: "\<forall>v. map_of d' v = map_option (\<lambda>k. k - int (out_count adj u v)) (map_of d v)"
    and dn: "distinct new"
    and new_iff: "\<And>v. v \<in> set new \<longleftrightarrow>
       v \<in> set nodes \<and> 0 < pending adj nodes (set order) v \<and> pending adj nodes (insert u (set order)) v = 0"
  shows "kahn_inv adj nodes d' (q @ new) (order @ [u])"
proof -
  let ?P = "set order"
  from inv have dist: "distinct (order @ u # q)" and sub: "set (order @ u # q) \<subseteq> set nodes"
    and cnt: "\<forall>v \<in> set nodes. map_of d v = Some (int (pending adj nodes ?P v))"
    and que: "\<forall>v \<in> set nodes - ?P. v \<in> set (u # q) \<longleftrightarrow> pending adj nodes ?P v = 0"
    and tp: "topo_prefix adj nodes order"
    by (simp_all add: kahn_inv_def)
  have pi: "pending adj nodes (insert u ?P) v + out_count adj u v = pending adj nodes ?P v" for v
    using u by (rule pending_insert)
  note fresh = kahn_new_fresh [OF inv new_iff]
  show ?thesis
    unfolding kahn_inv_def
  proof (intro conjI ballI)
    show "distinct ((order @ [u]) @ q @ new)"
      using dist dn fresh by auto
    show "set ((order @ [u]) @ q @ new) \<subseteq> set nodes"
      using sub new_iff by auto
  next
    fix v
    assume v: "v \<in> set nodes"
    have "int (pending adj nodes ?P v) - int (out_count adj u v) = int (pending adj nodes (insert u ?P) v)"
      using pi [of v] by linarith
    with m cnt v show "map_of d' v = Some (int (pending adj nodes (set (order @ [u])) v))" by simp
  next
    fix v
    assume v: "v \<in> set nodes - set (order @ [u])"
    show "v \<in> set (q @ new) \<longleftrightarrow> pending adj nodes (set (order @ [u])) v = 0"
    proof (cases "v \<in> set q")
      case True
      with que v have "pending adj nodes ?P v = 0" by auto
      with True pi [of v] show ?thesis by simp
    next
      case False
      with que v have "0 < pending adj nodes ?P v" by auto
      with False v new_iff [of v] show ?thesis by auto
    qed
  next
    show "topo_prefix adj nodes (order @ [u])"
      using tp u0 by (rule topo_prefix_snoc)
  qed
qed

lemma kahn_step:
  assumes inv: "kahn_inv adj nodes d (u # q) order" and cl: "adj_closed adj nodes"
  shows "\<exists>d' q'. relax (dd_get adj u) d q = Inr (d', q') \<and> kahn_inv adj nodes d' q' (order @ [u])"
proof -
  let ?P = "set order" and ?vs = "dd_get adj u"
  from inv have dist: "distinct (order @ u # q)" and sub: "set (order @ u # q) \<subseteq> set nodes"
    and cnt: "\<forall>v \<in> set nodes. map_of d v = Some (int (pending adj nodes ?P v))"
    and que: "\<forall>v \<in> set nodes - ?P. v \<in> set (u # q) \<longleftrightarrow> pending adj nodes ?P v = 0"
    by (simp_all add: kahn_inv_def)
  from sub dist have u: "u \<in> set nodes" "u \<notin> ?P" by auto
  have u0: "pending adj nodes ?P u = 0" using que [rule_format, of u] u by simp
  from cl u have tgt: "fst ` set ?vs \<subseteq> set nodes" by (simp add: adj_closed_def)
  with cnt have "fst ` set ?vs \<subseteq> dom (map_of d)" by blast
  from relax_ok [OF this, of q] obtain d' new where r: "relax ?vs d q = Inr (d', q @ new)"
    and m: "\<forall>v. map_of d' v = map_option (\<lambda>k. k - int (count_list (map fst ?vs) v)) (map_of d v)"
    and dn: "distinct new"
    and sn: "set new = {v \<in> fst ` set ?vs. \<exists>k. map_of d v = Some k \<and> 1 \<le> k \<and> k \<le> int (count_list (map fst ?vs) v)}"
    by blast
  have new_iff: "v \<in> set new \<longleftrightarrow> v \<in> set nodes \<and> 0 < pending adj nodes ?P v \<and> pending adj nodes (insert u ?P) v = 0"
    for v
  proof -
    have c: "v \<in> set nodes \<Longrightarrow> map_of d v = Some (int (pending adj nodes ?P v))"
      using cnt by blast
    show ?thesis unfolding sn mem_Collect_eq by (rule relax_new_iff [OF pending_insert [OF u] c tgt])
  qed
  from m have m': "\<forall>v. map_of d' v = map_option (\<lambda>k. k - int (out_count adj u v)) (map_of d v)"
    by (simp add: out_count_def)
  from kahn_inv_snoc [OF inv u u0 m' dn new_iff] r show ?thesis by blast
qed


lemma kahn_loop_ok:
  "kahn_inv adj nodes d q order \<Longrightarrow> adj_closed adj nodes \<Longrightarrow>
     \<exists>res. kahn_loop adj d q order = Inr res \<and> distinct res \<and> set res \<subseteq> set nodes
       \<and> topo_prefix adj nodes res \<and> (\<forall>v \<in> set nodes - set res. 0 < pending adj nodes (set res) v)"
proof (induction adj d q order rule: kahn_loop.induct)
  case (1 adj d order)
  then show ?case by (auto simp: kahn_inv_def)
next
  case (2 adj d u q order)
  from kahn_step [OF "2.prems"] obtain d' q' where r: "relax (dd_get adj u) d q = Inr (d', q')"
    and inv': "kahn_inv adj nodes d' q' (order @ [u])" by blast
  have "\<exists>res. kahn_loop adj d' q' (order @ [u]) = Inr res \<and> distinct res \<and> set res \<subseteq> set nodes
       \<and> topo_prefix adj nodes res \<and> (\<forall>v \<in> set nodes - set res. 0 < pending adj nodes (set res) v)"
    using "2.IH" [OF r refl inv' "2.prems"(2)] .
  with r show ?case by simp
qed

lemma map_of_const: "map_of (map (\<lambda>n. (n, c)) ns) v = (if v \<in> set ns then Some c else None)"
  by (induction ns) auto

lemma count_indeg_init:
  assumes dn: "distinct nodes" and cl: "adj_closed adj nodes"
  shows "\<exists>d. count_indeg adj nodes (map (\<lambda>n. (n, 0)) nodes) = Inr d
     \<and> kahn_inv adj nodes d (filter (\<lambda>n. map_of d n = Some 0) nodes) []"
proof -
  let ?d0 = "map (\<lambda>n. (n, 0::int)) nodes"
  have "\<forall>u \<in> set nodes. fst ` set (dd_get adj u) \<subseteq> dom (map_of ?d0)"
    using cl by (auto simp: adj_closed_def map_of_const dom_def)
  from count_indeg_ok [OF this] obtain d where r: "count_indeg adj nodes ?d0 = Inr d"
    and m: "\<forall>v. map_of d v = map_option (\<lambda>k. k + int (sum_list (map (\<lambda>u. out_count adj u v) nodes))) (map_of ?d0 v)"
    by blast
  have pend: "sum_list (map (\<lambda>u. out_count adj u v) nodes) = pending adj nodes {} v" for v
    using dn by (simp add: pending_def sum_list_distinct_conv_sum_set)
  have md: "map_of d v = (if v \<in> set nodes then Some (int (pending adj nodes {} v)) else None)" for v
    using m by (simp add: map_of_const pend)
  have "kahn_inv adj nodes d (filter (\<lambda>n. map_of d n = Some 0) nodes) []"
    unfolding kahn_inv_def topo_prefix_def using dn by (auto simp: md)
  with r show ?thesis by blast
qed

lemma topo_order_cases:
  assumes dn: "distinct nodes" and cl: "adj_closed adj nodes"
  shows "\<exists>res. distinct res \<and> set res \<subseteq> set nodes \<and> topo_prefix adj nodes res
     \<and> (\<forall>v \<in> set nodes - set res. 0 < pending adj nodes (set res) v)
     \<and> topo_order adj nodes = (if length res \<noteq> length nodes then Inl NotADag else Inr res)"
proof -
  from count_indeg_init [OF dn cl] obtain d where r: "count_indeg adj nodes (map (\<lambda>n. (n, 0)) nodes) = Inr d"
    and inv: "kahn_inv adj nodes d (filter (\<lambda>n. map_of d n = Some 0) nodes) []" by blast
  from kahn_loop_ok [OF inv cl] obtain res where k: "kahn_loop adj d (filter (\<lambda>n. map_of d n = Some 0) nodes) [] = Inr res"
    and props: "distinct res" "set res \<subseteq> set nodes" "topo_prefix adj nodes res"
      "\<forall>v \<in> set nodes - set res. 0 < pending adj nodes (set res) v"
    by blast
  have "topo_order adj nodes = (if length res \<noteq> length nodes then Inl NotADag else Inr res)"
    by (simp add: topo_order_def r k)
  with props show ?thesis by blast
qed

text \<open>The positions of a list, \<^verbatim>\<open>pos = {n: i for i, n in enumerate(topo)}\<close> of the test.\<close>

fun position :: "'a list \<Rightarrow> 'a \<Rightarrow> nat" where
  "position [] x = 0"
| "position (y # ys) x = (if y = x then 0 else Suc (position ys x))"

lemma position_nth: "distinct xs \<Longrightarrow> i < length xs \<Longrightarrow> position xs (xs ! i) = i"
proof (induction xs arbitrary: i)
  case (Cons y ys)
  then show ?case by (cases i) (auto simp: nth_mem)
qed simp

lemma topo_prefix_position:
  assumes tp: "topo_prefix adj nodes order" and d: "distinct order"
    and v: "v \<in> set order" and u: "u \<in> set nodes" and e: "v \<in> fst ` set (dd_get adj u)"
  shows "u \<in> set order \<and> position order u < position order v"
proof -
  from v obtain j where j: "j < length order" "order ! j = v" by (auto simp: in_set_conv_nth)
  with tp u e have "u \<in> set (take j order)" by (auto simp: topo_prefix_def)
  then obtain i where i: "i < length (take j order)" "take j order ! i = u" by (auto simp: in_set_conv_nth)
  with j have "i < j" "order ! i = u" by simp_all
  with j d show ?thesis by (metis position_nth nth_mem order.strict_trans)
qed


lemma rank_acyclic:
  assumes r: "\<forall>(u, v) \<in> R. f u < (f v :: nat)"
  shows "acyclic R"
proof -
  have "(x, y) \<in> R\<^sup>+ \<Longrightarrow> f x < f y" for x y
  proof (induction rule: trancl_induct)
    case (base y)
    with r show ?case by auto
  next
    case (step y z)
    with r show ?case by fastforce
  qed
  then show ?thesis by (auto simp: acyclic_def)
qed

lemma acyclic_no_stuck_set:
  assumes fin: "finite R" and ac: "acyclic R" and stuck: "\<forall>v \<in> S. \<exists>u \<in> S. (u, v) \<in> R"
  shows "S = {}"
proof (rule ccontr)
  assume "S \<noteq> {}"
  then obtain x where x: "x \<in> S" by blast
  from finite_acyclic_wf [OF fin ac] x obtain z where z: "z \<in> S" and min: "\<forall>y. (y, z) \<in> R \<longrightarrow> y \<notin> S"
    by (meson wfE_min)
  from stuck z min show False by blast
qed

lemma built_out_count:
  "out_count (g_adj (build_graph es)) u v = count_list (map fst (preds es v)) u"
  by (simp add: out_count_def build_graph_adj count_succs_preds)

lemma built_adj_closed: "adj_closed (g_adj (build_graph es)) (g_nodes (build_graph es))"
  using build_graph_wf [of es] by (simp add: graph_wf_def adj_closed_def)

lemma built_edge_iff:
  "(u, v) \<in> edge_rel es \<longleftrightarrow>
     u \<in> set (g_nodes (build_graph es)) \<and> v \<in> fst ` set (dd_get (g_adj (build_graph es)) u)"
  using edge_rel_endpoints [of u v es] build_graph_nodes [of es]
  by (auto simp: build_graph_adj edge_rel_succs)

lemma built_topo_order_cases:
  obtains res where "distinct res" "set res \<subseteq> endpoints es"
    "topo_prefix (g_adj (build_graph es)) (g_nodes (build_graph es)) res"
    "\<forall>v \<in> endpoints es - set res. 0 < pending (g_adj (build_graph es)) (g_nodes (build_graph es)) (set res) v"
    "topo_order (g_adj (build_graph es)) (g_nodes (build_graph es)) =
       (if length res \<noteq> length (g_nodes (build_graph es)) then Inl NotADag else Inr res)"
  using topo_order_cases [OF _ built_adj_closed, of es] build_graph_nodes [of es] by auto

lemma built_topo_order_Inr:
  assumes "topo_order (g_adj (build_graph es)) (g_nodes (build_graph es)) = Inr order"
  shows "distinct order \<and> set order = endpoints es
     \<and> (\<forall>(u, v) \<in> edge_rel es. position order u < position order v)"
proof -
  obtain res where res: "distinct res" "set res \<subseteq> endpoints es"
      "topo_prefix (g_adj (build_graph es)) (g_nodes (build_graph es)) res"
    and eq: "topo_order (g_adj (build_graph es)) (g_nodes (build_graph es)) =
       (if length res \<noteq> length (g_nodes (build_graph es)) then Inl NotADag else Inr res)"
    by (rule built_topo_order_cases)
  from eq assms have o: "order = res" and len: "length res = length (g_nodes (build_graph es))"
    by (auto split: if_splits)
  have "card (set res) = card (endpoints es)"
    using len res(1) build_graph_nodes [of es] by (metis distinct_card)
  with res(2) have set_eq: "set res = endpoints es"
    by (metis card_subset_eq finite_set build_graph_nodes)
  have "\<forall>(u, v) \<in> edge_rel es. position res u < position res v"
  proof (intro ballI, clarify)
    fix u v
    assume e: "(u, v) \<in> edge_rel es"
    with set_eq have "v \<in> set res" using edge_rel_endpoints by blast
    with e res(1,3) show "position res u < position res v"
      by (auto simp: built_edge_iff dest: topo_prefix_position)
  qed
  with o res(1) set_eq show ?thesis by simp
qed

text \<open>
  C3. An order returned by \<open>topo_order\<close> for a built graph lists every vertex
  exactly once, and for every edge \<open>(u, v)\<close> the position of \<open>u\<close> is less than
  the position of \<open>v\<close> (the test's \<open>pos[u] < pos[v]\<close>).
\<close>

theorem topo_order_sound:
  assumes "topo_order (g_adj (build_graph es)) (g_nodes (build_graph es)) = Inr order"
  shows "distinct order \<and> set order = endpoints es
     \<and> (\<forall>(u, v) \<in> edge_rel es. position order u < position order v)"
  using assms by (rule built_topo_order_Inr)

text \<open>
  C4. On a built graph \<open>topo_order\<close> never raises \<open>KeyError\<close>: it returns an
  order or raises the cycle error.
\<close>

theorem topo_order_no_key_error:
  "topo_order (g_adj (build_graph es)) (g_nodes (build_graph es)) \<in> insert (Inl NotADag) (range Inr)"
  by (rule built_topo_order_cases [of es]) auto

lemma built_topo_order_NotADag_iff:
  "topo_order (g_adj (build_graph es)) (g_nodes (build_graph es)) = Inl NotADag \<longleftrightarrow> \<not> acyclic (edge_rel es)"
proof
  assume nd: "topo_order (g_adj (build_graph es)) (g_nodes (build_graph es)) = Inl NotADag"
  obtain res where res: "distinct res" "set res \<subseteq> endpoints es"
    and stuck: "\<forall>v \<in> endpoints es - set res. 0 < pending (g_adj (build_graph es)) (g_nodes (build_graph es)) (set res) v"
    and eq: "topo_order (g_adj (build_graph es)) (g_nodes (build_graph es)) =
       (if length res \<noteq> length (g_nodes (build_graph es)) then Inl NotADag else Inr res)"
    by (rule built_topo_order_cases)
  from nd eq have len: "length res \<noteq> length (g_nodes (build_graph es))" by (auto split: if_splits)
  show "\<not> acyclic (edge_rel es)"
  proof
    assume ac: "acyclic (edge_rel es)"
    have "\<forall>v \<in> endpoints es - set res. \<exists>u \<in> endpoints es - set res. (u, v) \<in> edge_rel es"
    proof
      fix v
      assume v: "v \<in> endpoints es - set res"
      with stuck have "pending (g_adj (build_graph es)) (g_nodes (build_graph es)) (set res) v \<noteq> 0" by auto
      then obtain u where "u \<in> set (g_nodes (build_graph es)) - set res"
        "v \<in> fst ` set (dd_get (g_adj (build_graph es)) u)"
        unfolding pending_zero_iff by blast
      then show "\<exists>u \<in> endpoints es - set res. (u, v) \<in> edge_rel es"
        using build_graph_nodes [of es] by (auto simp: built_edge_iff)
    qed
    from acyclic_no_stuck_set [OF finite_edge_rel ac this] res(2) have "set res = endpoints es" by blast
    with res(1) build_graph_nodes [of es] have "length res = length (g_nodes (build_graph es))"
      by (metis distinct_card)
    with len show False by simp
  qed
next
  assume nac: "\<not> acyclic (edge_rel es)"
  show "topo_order (g_adj (build_graph es)) (g_nodes (build_graph es)) = Inl NotADag"
  proof (cases "topo_order (g_adj (build_graph es)) (g_nodes (build_graph es))")
    case (Inl e)
    have "topo_order (g_adj (build_graph es)) (g_nodes (build_graph es)) \<in> insert (Inl NotADag) (range Inr)"
      by (rule built_topo_order_cases [of es]) auto
    with Inl show ?thesis by auto
  next
    case (Inr order)
    then have "\<forall>(u, v) \<in> edge_rel es. position order u < position order v"
      by (auto dest: built_topo_order_Inr)
    then have "acyclic (edge_rel es)" by (rule rank_acyclic)
    with nac show ?thesis by simp
  qed
qed


text \<open>
  C5. \<open>topo_order\<close> raises the cycle error exactly on the edge lists whose graph
  has a cycle: an acyclic graph is always ordered, a cyclic one never.
\<close>

theorem topo_order_NotADag_iff:
  "topo_order (g_adj (build_graph es)) (g_nodes (build_graph es)) = Inl NotADag \<longleftrightarrow> \<not> acyclic (edge_rel es)"
  by (rule built_topo_order_NotADag_iff)

end
