(* ===== verification/Path_Count.thy ===== *)
theory Path_Count
  imports Topo_Sort
begin

text \<open>
  The Path Counter, \<open>count_paths_from_source\<close> of src/low_level_problem.py:
  \<open>ways = {n: 0 for n in nodes}; ways[source] = 1\<close>, then for each \<open>u\<close> of
  the topological order and each edge \<open>u \<rightarrow> v\<close>, \<open>ways[v] += ways[u]\<close>.
  The dict \<open>ways\<close> is an association list of \<open>nat\<close> counts (the code only
  adds non-negative numbers to 0 and 1, so Python's \<open>int\<close> values are the
  naturals). \<open>ways[v] += ways[u]\<close> loads \<open>ways[v]\<close> first, then \<open>ways[u]\<close>,
  each a possible \<open>KeyError\<close>; \<open>ways[u]\<close> is read again for every edge, as
  in the code.
\<close>

type_synonym ways = "(vertex, nat) dict"

text \<open>\<open>ways[v]\<close> where \<open>v\<close> is known to be a key.\<close>

abbreviation count_of :: "ways \<Rightarrow> vertex \<Rightarrow> nat" where
  "count_of ways u \<equiv> the (map_of ways u)"

text \<open>\<^verbatim>\<open>for v, _ in adj[u]: ways[v] += ways[u]\<close>\<close>

fun add_out :: "vertex \<Rightarrow> (vertex \<times> weight) list \<Rightarrow> ways \<Rightarrow> py_error + ways" where
  "add_out u [] ways = Inr ways"
| "add_out u ((v, _) # vs) ways =
     (case map_of ways v of
        None \<Rightarrow> Inl (KeyError v)
      | Some cv \<Rightarrow>
          (case map_of ways u of
             None \<Rightarrow> Inl (KeyError u)
           | Some cu \<Rightarrow> add_out u vs (AList.update v (cv + cu) ways)))"

text \<open>\<^verbatim>\<open>for u in topo: ...\<close>\<close>

fun dp_loop :: "adjmap \<Rightarrow> vertex list \<Rightarrow> ways \<Rightarrow> py_error + ways" where
  "dp_loop adj [] ways = Inr ways"
| "dp_loop adj (u # us) ways =
     (case add_out u (dd_get adj u) ways of
        Inl e \<Rightarrow> Inl e
      | Inr ways' \<Rightarrow> dp_loop adj us ways')"

definition count_paths_from_source :: "adjmap \<Rightarrow> vertex list \<Rightarrow> vertex list \<Rightarrow> vertex \<Rightarrow> py_error + ways" where
  "count_paths_from_source adj nodes topo source =
     dp_loop adj topo (AList.update source 1 (map (\<lambda>n. (n, 0)) nodes))"

subsection \<open>The recurrence\<close>

lemma add_out_ok:
  assumes keys: "fst ` set vs \<subseteq> dom (map_of ways)" and cu: "map_of ways u = Some c"
    and nl: "u \<notin> fst ` set vs"
  shows "\<exists>ways'. add_out u vs ways = Inr ways'
     \<and> (\<forall>v. map_of ways' v = map_option (\<lambda>x. x + count_list (map fst vs) v * c) (map_of ways v))"
  using keys cu nl
proof (induction vs arbitrary: ways)
  case Nil
  then show ?case by (simp add: option.map_ident)
next
  case (Cons e vs)
  obtain v w where e: "e = (v, w)" by (cases e)
  from Cons.prems e obtain cv where cv: "map_of ways v = Some cv" by auto
  let ?w1 = "AList.update v (cv + c) ways"
  have m1: "map_of ?w1 = (map_of ways)(v \<mapsto> cv + c)" using cv by (rule map_of_update_Some)
  from Cons.prems e have uv: "u \<noteq> v" by auto
  from Cons.prems e have "fst ` set vs \<subseteq> dom (map_of ?w1)" "map_of ?w1 u = Some c" "u \<notin> fst ` set vs"
    by (auto simp: m1 uv [symmetric])
  from Cons.IH [OF this] obtain ways' where r: "add_out u vs ?w1 = Inr ways'"
    and m: "\<forall>x. map_of ways' x = map_option (\<lambda>y. y + count_list (map fst vs) x * c) (map_of ?w1 x)"
    by blast
  have "add_out u (e # vs) ways = Inr ways'" using r cv Cons.prems(2) by (simp add: e)
  moreover have "\<forall>x. map_of ways' x = map_option (\<lambda>y. y + count_list (map fst (e # vs)) x * c) (map_of ways x)"
  proof -
    have m': "\<forall>x. map_of ways' x = map_option (\<lambda>y. y + count_list (map fst vs) x * c) (((map_of ways)(v \<mapsto> cv + c)) x)"
      using m m1 by simp
    then show ?thesis using cv by (auto simp: e algebra_simps)
  qed
  ultimately show ?case by blast
qed

text \<open>No vertex of the list has an edge back to itself or to a vertex before it.\<close>

fun no_back_edges :: "adjmap \<Rightarrow> vertex list \<Rightarrow> bool" where
  "no_back_edges adj [] = True"
| "no_back_edges adj (u # us) =
     ((\<forall>x \<in> set (u # us). u \<notin> fst ` set (dd_get adj x)) \<and> no_back_edges adj us)"

lemma dp_loop_ok:
  assumes "no_back_edges adj us"
    and "\<forall>u \<in> set us. insert u (fst ` set (dd_get adj u)) \<subseteq> dom (map_of ways)"
  shows "\<exists>ways'. dp_loop adj us ways = Inr ways' \<and> dom (map_of ways') = dom (map_of ways)
     \<and> (\<forall>v \<in> dom (map_of ways). the (map_of ways' v) =
           the (map_of ways v) + sum_list (map (\<lambda>u. out_count adj u v * the (map_of ways' u)) us))"
  using assms
proof (induction us arbitrary: ways)
  case Nil
  then show ?case by simp
next
  case (Cons u us)
  from Cons.prems(2) obtain c where c: "map_of ways u = Some c" by auto
  from Cons.prems have nl: "u \<notin> fst ` set (dd_get adj u)" by simp
  from add_out_ok [of "dd_get adj u" ways u c] Cons.prems(2) c nl obtain w1 where r1: "add_out u (dd_get adj u) ways = Inr w1"
    and m1: "\<forall>v. map_of w1 v = map_option (\<lambda>x. x + out_count adj u v * c) (map_of ways v)"
    by (auto simp: out_count_def)
  have d1: "dom (map_of w1) = dom (map_of ways)" using m1 by (auto simp: dom_def)
  from Cons.prems d1 obtain w' where r: "dp_loop adj us w1 = Inr w'" and d': "dom (map_of w') = dom (map_of w1)"
    and m: "\<forall>v \<in> dom (map_of w1). the (map_of w' v) =
           the (map_of w1 v) + sum_list (map (\<lambda>x. out_count adj x v * the (map_of w' x)) us)"
    using Cons.IH [of w1] by auto
  have zero: "sum_list (map (\<lambda>x. out_count adj x u * the (map_of w' x)) us) = 0"
    using Cons.prems(1) by (auto simp: out_count_pos_iff [symmetric] sum_list_eq_0_iff)
  have oc0: "out_count adj u u = 0" using nl by (simp add: out_count_pos_iff [symmetric])
  have wu: "the (map_of w' u) = c"
    using m [rule_format, of u] zero c m1 d1 oc0 by (auto simp: dom_def)
  have "dp_loop adj (u # us) ways = Inr w'" using r1 r by simp
  moreover have "\<forall>v \<in> dom (map_of ways). the (map_of w' v) =
           the (map_of ways v) + sum_list (map (\<lambda>x. out_count adj x v * the (map_of w' x)) (u # us))"
  proof
    fix v
    assume v: "v \<in> dom (map_of ways)"
    then obtain cv where cv: "map_of ways v = Some cv" by auto
    from m [rule_format, of v] v d1 have "the (map_of w' v) = the (map_of w1 v) + sum_list (map (\<lambda>x. out_count adj x v * the (map_of w' x)) us)"
      by simp
    with m1 cv wu show "the (map_of w' v) = the (map_of ways v) + sum_list (map (\<lambda>x. out_count adj x v * the (map_of w' x)) (u # us))"
      by simp
  qed
  ultimately show ?case using d' d1 by blast
qed


lemma no_back_edges_nth:
  "no_back_edges adj us \<longleftrightarrow>
     (\<forall>i < length us. \<forall>j < length us. us ! i \<in> fst ` set (dd_get adj (us ! j)) \<longrightarrow> j < i)"
proof (induction us)
  case (Cons u us)
  show ?case
  proof
    assume nb: "no_back_edges adj (u # us)"
    show "\<forall>i < length (u # us). \<forall>j < length (u # us). (u # us) ! i \<in> fst ` set (dd_get adj ((u # us) ! j)) \<longrightarrow> j < i"
    proof (intro allI impI)
      fix i j
      assume i: "i < length (u # us)" and j: "j < length (u # us)"
        and e: "(u # us) ! i \<in> fst ` set (dd_get adj ((u # us) ! j))"
      show "j < i"
      proof (cases i)
        case 0
        from j have "(u # us) ! j \<in> set (u # us)" by (rule nth_mem)
        with nb e 0 show ?thesis by auto
      next
        case (Suc i')
        note ii = Suc
        show ?thesis
        proof (cases j)
          case (Suc j')
          with ii i j e nb Cons.IH show ?thesis by auto
        qed (simp add: ii)
      qed
    qed
  next
    assume r: "\<forall>i < length (u # us). \<forall>j < length (u # us). (u # us) ! i \<in> fst ` set (dd_get adj ((u # us) ! j)) \<longrightarrow> j < i"
    have "\<forall>x \<in> set (u # us). u \<notin> fst ` set (dd_get adj x)"
    proof
      fix x
      assume "x \<in> set (u # us)"
      then obtain j where j: "j < length (u # us)" "(u # us) ! j = x" by (metis in_set_conv_nth)
      with r [rule_format, of 0 j] show "u \<notin> fst ` set (dd_get adj x)" by auto
    qed
    moreover have "no_back_edges adj us"
      unfolding Cons.IH using r [rule_format, of "Suc _" "Suc _"] by auto
    ultimately show "no_back_edges adj (u # us)" by simp
  qed
qed simp

lemma sum_count_weighted:
  assumes "distinct us" and "fst ` set xs \<subseteq> set us"
  shows "sum_list (map (\<lambda>u. count_list (map fst xs) u * f u) us) = sum_list (map (\<lambda>(u, _). f u) xs)"
  using assms(2)
proof (induction xs)
  case Nil
  then show ?case by simp
next
  case (Cons x xs)
  obtain a b where x: "x = (a, b)" by (cases x)
  from Cons.prems x have a: "a \<in> set us" by simp
  have el: "count_list (map fst (x # xs)) u * f u = (if a = u then f u else 0) + count_list (map fst xs) u * f u" for u
    by (simp add: x)
  have "sum_list (map (\<lambda>u. count_list (map fst (x # xs)) u * f u) us)
      = sum_list (map (\<lambda>u. (if a = u then f u else 0) + count_list (map fst xs) u * f u) us)"
    by (simp only: el)
  also have "\<dots> = sum_list (map (\<lambda>u. if a = u then f u else 0) us) + sum_list (map (\<lambda>u. count_list (map fst xs) u * f u) us)"
    by (simp add: sum_list_addf)
  also have "sum_list (map (\<lambda>u. if a = u then f u else 0) us) = f a"
    using assms(1) a by (simp add: sum_list_distinct_conv_sum_set)
  finally show ?case using Cons by (simp add: x)
qed

lemma ways_init:
  "map_of (AList.update s 1 (map (\<lambda>n. (n, 0)) nodes)) v =
     (if v = s then Some 1 else if v \<in> set nodes then Some (0::nat) else None)"
  by (simp add: update_conv' map_of_const)

lemma built_no_back_edges:
  assumes "topo_order (g_adj (build_graph es)) (g_nodes (build_graph es)) = Inr order"
  shows "no_back_edges (g_adj (build_graph es)) order"
proof -
  from built_topo_order_Inr [OF assms] have d: "distinct order"
    and fwd: "\<forall>(u, v) \<in> edge_rel es. position order u < position order v" by auto
  show ?thesis unfolding no_back_edges_nth
  proof (intro allI impI)
    fix i j
    assume i: "i < length order" and j: "j < length order"
      and e: "order ! i \<in> fst ` set (dd_get (g_adj (build_graph es)) (order ! j))"
    from e have "(order ! j, order ! i) \<in> edge_rel es"
      by (simp add: build_graph_adj edge_rel_succs)
    with fwd have "position order (order ! j) < position order (order ! i)" by auto
    with d i j show "j < i" by (simp add: position_nth)
  qed
qed


lemma add_out_dom: "add_out u vs w = Inr w' \<Longrightarrow> dom (map_of w') = dom (map_of w)"
proof (induction u vs w rule: add_out.induct)
  case (2 u v uu vs ways)
  then show ?case
    by (auto simp: update_conv' dom_def split: option.splits)
qed simp

lemma dp_loop_dom: "dp_loop adj us w = Inr w' \<Longrightarrow> dom (map_of w') = dom (map_of w)"
proof (induction adj us w rule: dp_loop.induct)
  case (2 adj u us ways)
  from "2.prems" obtain w1 where a: "add_out u (dd_get adj u) ways = Inr w1"
    and r: "dp_loop adj us w1 = Inr w'" by (auto split: sum.splits)
  from "2.IH" [OF a r] add_out_dom [OF a] show ?case by simp
qed simp

lemma count_paths_dom:
  "count_paths_from_source adj nodes order s = Inr ways \<Longrightarrow> dom (map_of ways) = insert s (set nodes)"
  by (auto simp: count_paths_from_source_def dest!: dp_loop_dom simp: update_conv' map_of_const dom_def split: if_splits)

lemma count_paths_built:
  assumes topo: "topo_order (g_adj (build_graph es)) (g_nodes (build_graph es)) = Inr order"
  shows "\<exists>ways. count_paths_from_source (g_adj (build_graph es)) (g_nodes (build_graph es)) order s = Inr ways
     \<and> dom (map_of ways) = insert s (endpoints es)
     \<and> (\<forall>v \<in> insert s (endpoints es). the (map_of ways v) =
           (if v = s then 1 else 0) + sum_list (map (\<lambda>(u, _). the (map_of ways u)) (preds es v)))"
proof -
  let ?adj = "g_adj (build_graph es)" and ?nodes = "g_nodes (build_graph es)"
  let ?w0 = "AList.update s (1::nat) (map (\<lambda>n. (n, 0)) ?nodes)"
  from built_topo_order_Inr [OF topo] have d: "distinct order" and so: "set order = endpoints es" by auto
  have nodes: "set ?nodes = endpoints es" using build_graph_nodes [of es] by simp
  have w0: "map_of ?w0 v = (if v = s then Some 1 else if v \<in> set ?nodes then Some 0 else None)" for v
    by (rule ways_init)
  have dom0: "dom (map_of ?w0) = insert s (endpoints es)"
    unfolding dom_def w0 using nodes by auto
  have keys: "\<forall>u \<in> set order. insert u (fst ` set (dd_get ?adj u)) \<subseteq> dom (map_of ?w0)"
  proof
    fix u
    assume "u \<in> set order"
    with so have "u \<in> endpoints es" by simp
    moreover have "fst ` set (dd_get ?adj u) \<subseteq> endpoints es"
      using succs_endpoints [of es u] by (simp add: build_graph_adj)
    ultimately show "insert u (fst ` set (dd_get ?adj u)) \<subseteq> dom (map_of ?w0)"
      using dom0 by auto
  qed
  from dp_loop_ok [OF built_no_back_edges [OF topo] keys] obtain w' where
    r: "dp_loop ?adj order ?w0 = Inr w'" and dw: "dom (map_of w') = dom (map_of ?w0)"
    and m: "\<forall>v \<in> dom (map_of ?w0). the (map_of w' v) =
           the (map_of ?w0 v) + sum_list (map (\<lambda>u. out_count ?adj u v * the (map_of w' u)) order)"
    by blast
  have "\<forall>v \<in> insert s (endpoints es). the (map_of w' v) =
           (if v = s then 1 else 0) + sum_list (map (\<lambda>(u, _). the (map_of w' u)) (preds es v))"
  proof
    fix v
    assume v: "v \<in> insert s (endpoints es)"
    have "fst ` set (preds es v) \<subseteq> set order" using so preds_endpoints [of es v] by simp
    from sum_count_weighted [OF d this, of "\<lambda>u. the (map_of w' u)"]
    have sums: "sum_list (map (\<lambda>u. out_count ?adj u v * the (map_of w' u)) order)
        = sum_list (map (\<lambda>(u, _). the (map_of w' u)) (preds es v))"
      by (simp add: built_out_count)
    moreover have init: "the (map_of ?w0 v) = (if v = s then 1 else 0)"
      unfolding w0 using v nodes by auto
    moreover have mv: "the (map_of w' v) = the (map_of ?w0 v) + sum_list (map (\<lambda>u. out_count ?adj u v * the (map_of w' u)) order)"
      using m v dom0 by blast
    ultimately show "the (map_of w' v) = (if v = s then 1 else 0) + sum_list (map (\<lambda>(u, _). the (map_of w' u)) (preds es v))"
      by (simp only:)
  qed
  with r dw dom0 show ?thesis by (auto simp: count_paths_from_source_def)
qed

lemma recurrence_unique:
  assumes ac: "acyclic (edge_rel es)" and D: "endpoints es \<subseteq> D"
    and f: "\<forall>v \<in> D. f v = b v + sum_list (map (\<lambda>(u, _). f u) (preds es v))"
    and g: "\<forall>v \<in> D. g v = b v + sum_list (map (\<lambda>(u, _). g u) (preds es v))"
  shows "\<forall>v \<in> D. f v = (g v :: nat)"
proof -
  have wf: "wf (edge_rel es)" by (rule finite_acyclic_wf [OF finite_edge_rel ac])
  have "v \<in> D \<longrightarrow> f v = g v" for v
  using wf proof (induction v rule: wf_induct_rule)
    case (less v)
    show ?case
    proof
      assume v: "v \<in> D"
      have m: "map (\<lambda>(u, _). f u) (preds es v) = map (\<lambda>(u, _). g u) (preds es v)"
      proof (rule map_cong [OF refl])
        fix p assume p: "p \<in> set (preds es v)"
        then have e: "(fst p, v) \<in> edge_rel es" by (force simp: edge_rel_preds)
        then have "fst p \<in> D" using edge_rel_endpoints [OF e] D by blast
        with less e show "(\<lambda>(u, _). f u) p = (\<lambda>(u, _). g u) p" by (auto split: prod.splits)
      qed
      from f v have fv: "f v = b v + sum_list (map (\<lambda>(u, _). f u) (preds es v))" by blast
      from g v have gv: "g v = b v + sum_list (map (\<lambda>(u, _). g u) (preds es v))" by blast
      show "f v = g v" by (simp only: fv gv m)
    qed
  qed
  then show ?thesis by blast
qed

lemma recurrence_pos_reach:
  assumes ac: "acyclic (edge_rel es)" and D: "endpoints es \<subseteq> D"
    and f: "\<forall>v \<in> D. f v = (if v = x then 1 else 0) + sum_list (map (\<lambda>(u, _). f u) (preds es v))"
  shows "v \<in> D \<Longrightarrow> 0 < (f v :: nat) \<Longrightarrow> (x, v) \<in> (edge_rel es)\<^sup>*"
proof (induction v rule: wf_induct_rule [OF finite_acyclic_wf [OF finite_edge_rel ac]])
  case (1 v)
  show ?case
  proof (cases "v = x")
    case False
    with f "1.prems" have "0 < sum_list (map (\<lambda>(u, _). f u) (preds es v))" by simp
    then obtain u w where uw: "(u, w) \<in> set (preds es v)" and pos: "0 < f u"
      by (auto dest: sum_list_pos_ex)
    then have e: "(u, v) \<in> edge_rel es" by (force simp: edge_rel_preds)
    with D have "u \<in> D" by (blast dest: edge_rel_endpoints)
    from "1.IH" [OF e this pos] e show ?thesis by (rule rtrancl_into_rtrancl)
  qed simp
qed

lemma recurrence_reach_pos:
  assumes f: "\<forall>v \<in> D. f v = (if v = x then 1 else 0) + sum_list (map (\<lambda>(u, _). f u) (preds es v))"
    and D: "insert x (endpoints es) \<subseteq> D"
  shows "(x, v) \<in> (edge_rel es)\<^sup>* \<Longrightarrow> 0 < (f v :: nat)"
proof (induction rule: rtrancl_induct)
  case base
  from f D show ?case by auto
next
  case (step y z)
  from step.hyps(2) have yz: "y \<in> fst ` set (preds es z)" by (simp add: edge_rel_preds)
  from edge_rel_endpoints [OF step.hyps(2)] D have z: "z \<in> D" by blast
  have "f y \<le> sum_list (map (\<lambda>(u, _). f u) (preds es z))"
    using yz by (force intro: member_le_sum_list simp: image_iff)
  with f z step.IH show ?case by fastforce
qed

lemma dp_forward:
  assumes ac: "acyclic (edge_rel es)" and u: "u \<in> endpoints es"
    and F: "\<forall>x \<in> endpoints es. \<forall>v \<in> endpoints es.
              (F x v :: nat) = (if v = x then 1 else 0) + sum_list (map (\<lambda>(y, _). F x y) (preds es v))"
  shows "\<forall>v \<in> endpoints es. F u v = (if v = u then 1 else 0) + sum_list (map (\<lambda>(x, _). F x v) (succs es u))"
proof -
  define G where "G v = (if v = u then 1 else 0) + sum_list (map (\<lambda>(x, _). F x v) (succs es u))" for v
  let ?S = "map fst (succs es u)"
  have "\<forall>v \<in> endpoints es. G v = (if v = u then 1 else 0) + sum_list (map (\<lambda>(y, _). G y) (preds es v))"
  proof
    fix v assume v: "v \<in> endpoints es"
    let ?P = "map fst (preds es v)"
    have S: "set ?S \<subseteq> endpoints es" using succs_endpoints [of es u] by simp
    have "sum_list (map (\<lambda>x. F x v) ?S)
        = sum_list (map (\<lambda>x. (if v = x then 1 else 0) + sum_list (map (\<lambda>y. F x y) ?P)) ?S)"
      using F v S by (intro arg_cong [where f = sum_list] map_cong) (auto simp: map_case_fst)
    also have "\<dots> = count_list ?S v + sum_list (map (\<lambda>y. sum_list (map (\<lambda>x. F x y) ?S)) ?P)"
      by (simp only: sum_list_addf count_list_sum sum_list_swap [of F ?P ?S])
    also have "\<dots> = count_list ?P u + sum_list (map (\<lambda>y. sum_list (map (\<lambda>x. F x y) ?S)) ?P)"
      by (simp add: count_succs_preds)
    also have "\<dots> = sum_list (map (\<lambda>y. (if y = u then 1 else 0) + sum_list (map (\<lambda>x. F x y) ?S)) ?P)"
      by (simp only: sum_list_addf count_list_sum')
    finally show "G v = (if v = u then 1 else 0) + sum_list (map (\<lambda>(y, _). G y) (preds es v))"
      by (simp add: G_def map_case_fst)
  qed
  moreover have "\<forall>v \<in> endpoints es. F u v = (if v = u then 1 else 0) + sum_list (map (\<lambda>(y, _). F u y) (preds es v))"
    using F u by blast
  ultimately have "\<forall>v \<in> endpoints es. F u v = G v" using recurrence_unique [OF ac subset_refl, where f = "F u" and g = G and b = "\<lambda>v. if v = u then 1 else 0"]
    by blast
  then show ?thesis by (simp add: G_def)
qed

lemma built_count_family:
  assumes topo: "topo_order (g_adj (build_graph es)) (g_nodes (build_graph es)) = Inr order"
    and F: "\<And>x v. F x v = (case count_paths_from_source (g_adj (build_graph es)) (g_nodes (build_graph es)) order x of
                          Inr w \<Rightarrow> count_of w v | Inl _ \<Rightarrow> 0)"
  shows "\<forall>x \<in> endpoints es. \<forall>v \<in> endpoints es.
           F x v = (if v = x then 1 else 0) + sum_list (map (\<lambda>(y, _). F x y) (preds es v))"
proof (intro ballI)
  fix x v assume x: "x \<in> endpoints es" and v: "v \<in> endpoints es"
  from count_paths_built [OF topo, of x] obtain w where
    c: "count_paths_from_source (g_adj (build_graph es)) (g_nodes (build_graph es)) order x = Inr w"
    and r: "\<forall>v \<in> insert x (endpoints es). count_of w v =
           (if v = x then 1 else 0) + sum_list (map (\<lambda>(u, _). count_of w u) (preds es v))"
    by blast
  have "F x = count_of w" using c by (simp add: F fun_eq_iff)
  with r v show "F x v = (if v = x then 1 else 0) + sum_list (map (\<lambda>(y, _). F x y) (preds es v))" by simp
qed

lemma no_path_back:
  assumes ac: "acyclic (edge_rel es)" and e: "(y, t) \<in> edge_rel es" and r: "(t, y) \<in> (edge_rel es)\<^sup>*"
  shows False
proof -
  from r e have "(t, t) \<in> (edge_rel es)\<^sup>+" by (rule rtrancl_into_trancl1)
  with ac show False by (simp add: acyclic_def)
qed

text \<open>
  C6. For a built graph and the order \<open>topo_order\<close> returns, the counter never
  raises, its table has a key for the source and every vertex, and every entry satisfies
  the recurrence \<open>count[v] = [v = source] + \<Sum> count[u]\<close> over the edges
  \<open>u \<rightarrow> v\<close>, one term per edge (multi-edges counted separately; the source's
  own in-edges add to its base of 1).
\<close>

theorem count_paths_recurrence:
  assumes topo: "topo_order (g_adj (build_graph es)) (g_nodes (build_graph es)) = Inr order"
  shows "\<exists>ways. count_paths_from_source (g_adj (build_graph es)) (g_nodes (build_graph es)) order s = Inr ways
     \<and> dom (map_of ways) = insert s (endpoints es)
     \<and> (\<forall>v \<in> insert s (endpoints es). the (map_of ways v) =
           (if v = s then 1 else 0) + sum_list (map (\<lambda>(u, _). the (map_of ways u)) (preds es v)))"
  using topo by (rule count_paths_built)

end
