(* ===== verification/Path_Enum.thy ===== *)
theory Path_Enum
  imports Graph_Builder
begin

text \<open>
  The Path Enumerator, \<open>enumerate_paths_dfs\<close> of src/low_level_problem.py: a
  recursive \<open>dfs(u, acc_cost, path)\<close> that records \<open>(path.copy(), acc_cost)\<close>
  when \<open>u == target\<close> and otherwise recurses along every edge of \<open>adj[u]\<close>
  in order, with \<open>path.append(v)\<close> before and \<open>path.pop()\<close> after the call.
  The shared list \<open>path\<close> is always the current prefix, so the model passes it
  by value, and the list \<open>paths\<close> that the calls append to is the concatenation
  of the results of the calls in their order.
  On a cyclic graph the Python recursion does not end (it stops with
  \<open>RecursionError\<close>), so the model carries fuel, one unit per nested call, and
  returns \<open>None\<close> when the fuel runs out; the enough-fuel lemma says that on an
  acyclic graph fuel above the length of the longest path always suffices.
  The ranking of item 2, \<open>sorted(paths, key=lambda pc: pc[1], reverse=True)\<close>, is
  a stable sort by decreasing cost: \<open>sort_key\<close> on the negated cost, which keeps
  equal costs in enumeration order as Python's stable sort does.
\<close>

type_synonym path_rec = "vertex list \<times> int"

fun dfs :: "nat \<Rightarrow> adjmap \<Rightarrow> vertex \<Rightarrow> vertex \<Rightarrow> int \<Rightarrow> vertex list \<Rightarrow> path_rec list option"
and dfs_edges :: "nat \<Rightarrow> adjmap \<Rightarrow> vertex \<Rightarrow> (vertex \<times> weight) list \<Rightarrow> int \<Rightarrow> vertex list \<Rightarrow> path_rec list option"
where
  "dfs 0 adj target u acc path = None"
| "dfs (Suc n) adj target u acc path =
     (if u = target then Some [(path, acc)] else dfs_edges n adj target (dd_get adj u) acc path)"
| "dfs_edges n adj target [] acc path = Some []"
| "dfs_edges n adj target ((v, w) # vs) acc path =
     (case dfs n adj target v (acc + w) (path @ [v]) of
        None \<Rightarrow> None
      | Some ps \<Rightarrow>
          (case dfs_edges n adj target vs acc path of
             None \<Rightarrow> None
           | Some qs \<Rightarrow> Some (ps @ qs)))"

definition enumerate_paths_dfs :: "nat \<Rightarrow> adjmap \<Rightarrow> vertex \<Rightarrow> vertex \<Rightarrow> path_rec list option" where
  "enumerate_paths_dfs fuel adj source target = dfs fuel adj target source 0 [source]"

text \<open>\<^verbatim>\<open>sorted(paths, key=lambda pc: pc[1], reverse=True)\<close>\<close>

definition rank_paths :: "path_rec list \<Rightarrow> path_rec list" where
  "rank_paths paths = sort_key (\<lambda>pc. - snd pc) paths"


text \<open>The abstract view of a record: a walk is a list of edges of the edge list, each
  starting where the previous one ended (as \<open>is_path\<close> over edge lists in the
  Dijkstra development of the AFP); its cost is the sum of the weights and its vertex
  list the one the code records.\<close>

fun is_walk :: "edge list \<Rightarrow> vertex \<Rightarrow> edge list \<Rightarrow> vertex \<Rightarrow> bool" where
  "is_walk es u [] u' \<longleftrightarrow> u = u'"
| "is_walk es u ((a, b, w) # p) u' \<longleftrightarrow> u = a \<and> (a, b, w) \<in> set es \<and> is_walk es b p u'"

definition walk_cost :: "edge list \<Rightarrow> int" where
  "walk_cost p = sum_list (map (\<lambda>(_, _, w). w) p)"

definition walk_vertices :: "vertex \<Rightarrow> edge list \<Rightarrow> vertex list" where
  "walk_vertices u p = u # map (\<lambda>(_, b, _). b) p"

text \<open>The number of vertices reachable from \<open>u\<close> by a non-empty walk, which bounds
  the depth of the recursion below \<open>u\<close> on an acyclic graph.\<close>

definition rank :: "edge list \<Rightarrow> vertex \<Rightarrow> nat" where
  "rank es u = card ((edge_rel es)\<^sup>+ `` {u})"

section \<open>Lemmas\<close>

lemma rank_less:
  assumes ac: "acyclic (edge_rel es)" and e: "(u, x) \<in> edge_rel es"
  shows "rank es x < rank es u"
proof -
  have fin: "finite ((edge_rel es)\<^sup>+ `` {u})"
    by (intro finite_Image_rel finite_trancl [THEN iffD2] finite_edge_rel)
  have "(edge_rel es)\<^sup>+ `` {x} \<subseteq> (edge_rel es)\<^sup>+ `` {u}"
    using e by (auto intro: trancl_into_trancl2)
  moreover have "x \<in> (edge_rel es)\<^sup>+ `` {u}" using e by auto
  moreover have "x \<notin> (edge_rel es)\<^sup>+ `` {x}" using ac by (simp add: acyclic_def)
  ultimately have "(edge_rel es)\<^sup>+ `` {x} \<subset> (edge_rel es)\<^sup>+ `` {u}" by blast
  then show ?thesis unfolding rank_def by (rule psubset_card_mono [OF fin])
qed

lemma rank_bound: "rank es u \<le> card (endpoints es)"
proof -
  have "(edge_rel es)\<^sup>+ `` {u} \<subseteq> endpoints es"
  proof
    fix y assume "y \<in> (edge_rel es)\<^sup>+ `` {u}"
    then have "(u, y) \<in> (edge_rel es)\<^sup>+" by simp
    then obtain z where "(z, y) \<in> edge_rel es" by (cases rule: tranclE) auto
    then show "y \<in> endpoints es" by (blast dest: edge_rel_endpoints)
  qed
  then show ?thesis unfolding rank_def by (intro card_mono) simp_all
qed

lemma dfs_fuel_enough:
  assumes ac: "acyclic (edge_rel es)"
  shows "rank es u < n \<Longrightarrow> \<exists>ps. dfs n (g_adj (build_graph es)) t u acc path = Some ps"
proof (induction n arbitrary: u acc path)
  case 0
  then show ?case by simp
next
  case (Suc n)
  have "set vs \<subseteq> set (succs es u) \<Longrightarrow> \<exists>qs. dfs_edges n (g_adj (build_graph es)) t vs acc' path' = Some qs"
    for vs acc' path'
  proof (induction vs arbitrary: acc' path')
    case (Cons e vs)
    obtain x w where e: "e = (x, w)" by (cases e)
    with Cons.prems have "(u, x) \<in> edge_rel es" by (force simp: edge_rel_succs)
    with rank_less [OF ac] Suc.prems have "rank es x < n" by fastforce
    with Suc.IH obtain ps where "dfs n (g_adj (build_graph es)) t x (acc' + w) (path' @ [x]) = Some ps"
      by blast
    moreover from Cons.prems Cons.IH [of acc' path'] obtain qs
      where "dfs_edges n (g_adj (build_graph es)) t vs acc' path' = Some qs"
      by auto
    ultimately show ?case by (simp add: e)
  qed simp
  then show ?case by (simp add: build_graph_adj)
qed

lemma dfs_length:
  "W t = 1 \<Longrightarrow> \<forall>u. u \<noteq> t \<longrightarrow> W u = sum_list (map (\<lambda>(x, _). W x) (dd_get adj u)) \<Longrightarrow>
     dfs n adj t u acc path = Some ps \<Longrightarrow> length ps = W u"
  "W t = 1 \<Longrightarrow> \<forall>u. u \<noteq> t \<longrightarrow> W u = sum_list (map (\<lambda>(x, _). W x) (dd_get adj u)) \<Longrightarrow>
     dfs_edges n adj t vs acc path = Some ps \<Longrightarrow> length ps = sum_list (map (\<lambda>(x, _). W x) vs)"
proof (induction n adj t u acc path and n adj t vs acc path arbitrary: ps and ps rule: dfs_dfs_edges.induct)
  case (2 n adj target u acc path)
  then show ?case by (auto split: if_splits)
next
  case (4 n adj target v w vs acc path)
  then show ?case by (auto split: option.splits)
qed simp_all

lemma walk_Cons:
  "walk_vertices u ((u, x, w) # p) = u # walk_vertices x p"
  "walk_cost ((u, x, w) # p) = w + walk_cost p"
  by (simp_all add: walk_vertices_def walk_cost_def)

lemma dfs_sound:
  "\<forall>u x w. (x, w) \<in> set (dd_get adj u) \<longrightarrow> (u, x, w) \<in> set es \<Longrightarrow>
     dfs n adj t u acc path = Some ps \<Longrightarrow> (q, c) \<in> set ps \<Longrightarrow>
     \<exists>p. is_walk es u p t \<and> q = path @ tl (walk_vertices u p) \<and> c = acc + walk_cost p
       \<and> t \<notin> set (butlast (walk_vertices u p))"
  "\<forall>u x w. (x, w) \<in> set (dd_get adj u) \<longrightarrow> (u, x, w) \<in> set es \<Longrightarrow>
     dfs_edges n adj t vs acc path = Some ps \<Longrightarrow> (q, c) \<in> set ps \<Longrightarrow>
     \<exists>x w p. (x, w) \<in> set vs \<and> is_walk es x p t \<and> q = path @ walk_vertices x p
       \<and> c = acc + w + walk_cost p \<and> t \<notin> set (butlast (walk_vertices x p))"
proof (induction n adj t u acc path and n adj t vs acc path arbitrary: ps q c and ps q c
    rule: dfs_dfs_edges.induct)
  case (2 n adj t u acc path)
  show ?case
  proof (cases "u = t")
    case True
    with "2.prems" have "q = path" "c = acc" by auto
    with True show ?thesis by (intro exI [of _ "[]"]) (simp add: walk_vertices_def walk_cost_def)
  next
    case False
    with "2.prems" have "dfs_edges n adj t (dd_get adj u) acc path = Some ps" by simp
    from "2.IH" [OF False "2.prems"(1) this "2.prems"(3)] obtain x w p where
      xw: "(x, w) \<in> set (dd_get adj u)" and p: "is_walk es x p t" and q: "q = path @ walk_vertices x p"
      and c: "c = acc + w + walk_cost p" and nt: "t \<notin> set (butlast (walk_vertices x p))"
      by blast
    have e: "(u, x, w) \<in> set es" using xw "2.prems"(1) by blast
    have "butlast (walk_vertices u ((u, x, w) # p)) = u # butlast (walk_vertices x p)"
      by (simp add: walk_vertices_def)
    with e p q c nt False show ?thesis
      by (intro exI [of _ "(u, x, w) # p"]) (simp add: walk_Cons)
  qed
next
  case (4 n adj t v w vs acc path)
  from "4.prems"(2) obtain ps1 ps2 where
    r1: "dfs n adj t v (acc + w) (path @ [v]) = Some ps1"
    and r2: "dfs_edges n adj t vs acc path = Some ps2" and ps: "ps = ps1 @ ps2"
    by (auto split: option.splits)
  show ?case
  proof (cases "(q, c) \<in> set ps1")
    case True
    from "4.IH"(1) [OF "4.prems"(1) r1 True] obtain p where "is_walk es v p t"
      "q = (path @ [v]) @ tl (walk_vertices v p)" "c = acc + w + walk_cost p"
      "t \<notin> set (butlast (walk_vertices v p))" by blast
    then show ?thesis by (intro exI [of _ v] exI [of _ w] exI [of _ p]) (simp add: walk_vertices_def)
  next
    case False
    with ps "4.prems"(3) have "(q, c) \<in> set ps2" by simp
    from "4.IH"(2) [OF r1 "4.prems"(1) r2 this] show ?thesis by auto
  qed
qed simp_all

lemma enumerate_paths_enough:
  assumes "acyclic (edge_rel es)" and "card (endpoints es) < fuel"
  shows "\<exists>ps. enumerate_paths_dfs fuel (g_adj (build_graph es)) s t = Some ps"
  using dfs_fuel_enough [OF assms(1)] rank_bound [of es s] assms(2)
  by (simp add: enumerate_paths_dfs_def)

text \<open>
  C14. On an acyclic graph the enumeration returns, for every source and target, as soon
  as the fuel exceeds the number of vertices: the recursion of \<open>dfs\<close> terminates.
\<close>

theorem enumerate_paths_dfs_total:
  assumes "acyclic (edge_rel es)" and "card (endpoints es) < fuel"
  shows "\<exists>ps. enumerate_paths_dfs fuel (g_adj (build_graph es)) s t = Some ps"
  using assms by (rule enumerate_paths_enough)

lemma enumerate_paths_walks:
  assumes "enumerate_paths_dfs fuel (g_adj (build_graph es)) s t = Some ps" and "(q, c) \<in> set ps"
  shows "\<exists>p. is_walk es s p t \<and> q = walk_vertices s p \<and> c = walk_cost p \<and> t \<notin> set (butlast q)"
proof -
  have "\<forall>u x w. (x, w) \<in> set (dd_get (g_adj (build_graph es)) u) \<longrightarrow> (u, x, w) \<in> set es"
    by (simp add: build_graph_adj succs_mem)
  from dfs_sound(1) [OF this assms(1) [unfolded enumerate_paths_dfs_def] assms(2)]
  show ?thesis by (auto simp: walk_vertices_def)
qed

text \<open>
  C15. Every record the enumeration returns is a walk of the edge list from the source
  to the target: its vertex list is the walk's, its cost the sum of the walk's weights,
  and the target occurs only as its last vertex (the search stops on arrival).
\<close>

theorem enumerate_paths_sound:
  assumes "enumerate_paths_dfs fuel (g_adj (build_graph es)) s t = Some ps" and "(q, c) \<in> set ps"
  shows "\<exists>p. is_walk es s p t \<and> q = walk_vertices s p \<and> c = walk_cost p \<and> t \<notin> set (butlast q)"
  using assms by (rule enumerate_paths_walks)

lemma rank_paths_props:
  "mset (rank_paths ps) = mset ps \<and> sorted (map (\<lambda>pc. - snd pc) (rank_paths ps))
   \<and> (\<forall>c. filter (\<lambda>pc. snd pc = c) (rank_paths ps) = filter (\<lambda>pc. snd pc = c) ps)"
proof -
  have "filter (\<lambda>pc. snd pc = c) (rank_paths ps) = filter (\<lambda>pc. snd pc = c) ps" for c
    using sort_key_stable [of "\<lambda>pc. - snd pc" "- c" ps] by (simp add: rank_paths_def)
  then show ?thesis by (simp add: rank_paths_def)
qed

lemma walk_reach: "is_walk es u p t \<Longrightarrow> y \<in> set (walk_vertices u p) \<Longrightarrow> (u, y) \<in> (edge_rel es)\<^sup>*"
proof (induction p arbitrary: u)
  case Nil
  then show ?case by (simp add: walk_vertices_def)
next
  case (Cons e p)
  obtain a b w where e: "e = (a, b, w)" by (cases e)
  with Cons.prems have u: "u = a" and ab: "(a, b) \<in> edge_rel es" and p: "is_walk es b p t"
    by (auto simp: edge_rel_def)
  show ?case
  proof (cases "y = u")
    case False
    with Cons.prems e u have "y \<in> set (walk_vertices b p)" by (simp add: walk_vertices_def)
    from Cons.IH [OF p this] ab u show ?thesis by (blast intro: converse_rtrancl_into_rtrancl)
  qed simp
qed

lemma walk_distinct: "acyclic (edge_rel es) \<Longrightarrow> is_walk es u p t \<Longrightarrow> distinct (walk_vertices u p)"
proof (induction p arbitrary: u)
  case Nil
  then show ?case by (simp add: walk_vertices_def)
next
  case (Cons e p)
  obtain a b w where e: "e = (a, b, w)" by (cases e)
  with Cons.prems have u: "u = a" and ab: "(a, b) \<in> edge_rel es" and p: "is_walk es b p t"
    by (auto simp: edge_rel_def)
  have "u \<notin> set (walk_vertices b p)"
  proof
    assume "u \<in> set (walk_vertices b p)"
    from walk_reach [OF p this] ab u have "(u, u) \<in> (edge_rel es)\<^sup>+" by (blast intro: rtrancl_into_trancl2)
    with Cons.prems(1) show False by (simp add: acyclic_def)
  qed
  with Cons.IH [OF Cons.prems(1) p] e u show ?case by (simp add: walk_vertices_def)
qed

lemma walk_vertices_endpoints: "is_walk es u p t \<Longrightarrow> set (walk_vertices u p) \<subseteq> insert u (endpoints es)"
proof (induction p arbitrary: u)
  case (Cons e p)
  obtain a b w where e: "e = (a, b, w)" by (cases e)
  with Cons.prems have u: "u = a" and ab: "(a, b) \<in> edge_rel es" and p: "is_walk es b p t"
    by (auto simp: edge_rel_def)
  from edge_rel_endpoints [OF ab] have "b \<in> endpoints es" by blast
  with Cons.IH [OF p] have "set (walk_vertices b p) \<subseteq> insert u (endpoints es)" by blast
  then show ?case by (simp add: e u walk_Cons)
qed (simp add: walk_vertices_def)

text \<open>
  C25. On an acyclic graph every recorded path is simple. It has no repeated vertex,
  so it has at most as many vertices as the graph (with the source) has.
\<close>

theorem enumerate_paths_simple:
  assumes ac: "acyclic (edge_rel es)"
    and en: "enumerate_paths_dfs fuel (g_adj (build_graph es)) s t = Some ps" and q: "(q, c) \<in> set ps"
  shows "distinct q \<and> length q \<le> card (insert s (endpoints es))"
proof -
  from enumerate_paths_walks [OF en q] obtain p where w: "is_walk es s p t" and qv: "q = walk_vertices s p"
    by blast
  have d: "distinct q" using walk_distinct [OF ac w] qv by simp
  have "set q \<subseteq> insert s (endpoints es)" using walk_vertices_endpoints [OF w] qv by simp
  then have "card (set q) \<le> card (insert s (endpoints es))" by (intro card_mono) simp_all
  with d show ?thesis by (simp add: distinct_card)
qed

end
