(* ===== verification/Queries.thy ===== *)
theory Queries
  imports Topo_Sort Path_Count Path_Enum
begin

text \<open>
  The two read-only queries of src/low_level_problem.py, without their printing:
  \<open>solve_item1\<close> (the most reachable vertex: Build, Sort, Count, then
  \<open>max(nodes, key=lambda n: ways[n])\<close>) and \<open>solve_item2\<close> (the paths to it
  ranked by decreasing cost). Both propagate the exceptions of the components; the
  enumeration in item 2 is given \<open>length nodes + 1\<close> units of fuel, which is
  enough on every acyclic graph since no path visits a vertex twice. The theory ends
  with the cross-check of the specification: the enumeration returns as many records
  as the counter's table holds.
\<close>

record item1_result =
  it1_V :: vertex
  it1_ways :: ways
  it1_graph :: graph

definition solve_item1 :: "edge list \<Rightarrow> vertex \<Rightarrow> py_error + item1_result" where
  "solve_item1 edges source =
     (let g = build_graph edges in
      bind_res (topo_order (g_adj g) (g_nodes g)) (\<lambda>order.
      bind_res (count_paths_from_source (g_adj g) (g_nodes g) order source) (\<lambda>ways.
      bind_res (dict_max_key ways (g_nodes g)) (\<lambda>V.
      Inr \<lparr>it1_V = V, it1_ways = ways, it1_graph = g\<rparr>))))"

text \<open>\<open>None\<close>: the enumeration ran out of fuel (the Python recursion does not end).\<close>

definition solve_item2 :: "edge list \<Rightarrow> vertex \<Rightarrow> py_error + (item1_result \<times> path_rec list option)" where
  "solve_item2 edges source =
     bind_res (solve_item1 edges source) (\<lambda>r.
       let g = it1_graph r;
           paths = enumerate_paths_dfs (Suc (length (g_nodes g))) (g_adj g) source (it1_V r)
       in Inr (r, map_option rank_paths paths))"

section \<open>Enumeration against counting\<close>

text \<open>Counts towards a fixed target: if \<open>F x v\<close> counts the paths from every
  \<open>x\<close> by the recurrence, then \<open>W u = F u t\<close> satisfies the recurrence the
  enumerator's length obeys (\<open>dfs_length\<close>).\<close>

lemma family_target_weight:
  fixes F :: "vertex \<Rightarrow> vertex \<Rightarrow> nat"
  assumes ac: "acyclic (edge_rel es)" and tv: "t \<in> endpoints es"
    and fam: "\<forall>x \<in> endpoints es. \<forall>v \<in> endpoints es.
       F x v = (if v = x then 1 else 0) + sum_list (map (\<lambda>(y, _). F x y) (preds es v))"
  defines "W \<equiv> \<lambda>u. if u \<in> endpoints es then F u t else 0"
  shows "W t = 1 \<and> (\<forall>u. u \<noteq> t \<longrightarrow> W u = sum_list (map (\<lambda>(x, _). W x) (dd_get (g_adj (build_graph es)) u)))"
proof
  have "\<forall>y \<in> fst ` set (preds es t). F t y = 0"
  proof
    fix y assume y: "y \<in> fst ` set (preds es t)"
    then have e: "(y, t) \<in> edge_rel es" by (simp add: edge_rel_preds)
    then have yv: "y \<in> endpoints es" by (blast dest: edge_rel_endpoints)
    have "\<forall>v \<in> endpoints es. F t v = (if v = t then 1 else 0) + sum_list (map (\<lambda>(u, _). F t u) (preds es v))"
      using fam tv by blast
    from recurrence_pos_reach [where f = "F t" and x = t, OF ac subset_refl this yv] no_path_back [OF ac e]
    show "F t y = 0" by blast
  qed
  then have "sum_list (map (\<lambda>(y, _). F t y) (preds es t)) = 0"
    by (force simp: sum_list_eq_0_iff)
  with fam tv show "W t = 1" by (simp add: W_def)
  show "\<forall>u. u \<noteq> t \<longrightarrow> W u = sum_list (map (\<lambda>(x, _). W x) (dd_get (g_adj (build_graph es)) u))"
  proof (intro allI impI)
    fix u assume ut: "u \<noteq> t"
    show "W u = sum_list (map (\<lambda>(x, _). W x) (dd_get (g_adj (build_graph es)) u))"
    proof (cases "u \<in> endpoints es")
      case True
      from dp_forward [OF ac True fam] tv ut
      have "F u t = sum_list (map (\<lambda>(x, _). F x t) (succs es u))" by auto
      also have "\<dots> = sum_list (map (\<lambda>(x, _). W x) (succs es u))"
        using succs_endpoints [of es u] by (intro arg_cong [where f = sum_list] map_cong) (auto simp: W_def)
      finally show ?thesis using True by (simp add: W_def build_graph_adj)
    next
      case False
      then show ?thesis by (simp add: W_def build_graph_adj succs_not_endpoint)
    qed
  qed
qed

text \<open>A source outside the graph reaches no vertex of it.\<close>

lemma count_outside_source:
  assumes topo: "topo_order (g_adj (build_graph es)) (g_nodes (build_graph es)) = Inr order"
    and cnt: "count_paths_from_source (g_adj (build_graph es)) (g_nodes (build_graph es)) order s = Inr ways"
    and tv: "t \<in> endpoints es" and sv: "s \<notin> endpoints es"
  shows "count_of ways t = 0"
proof (rule ccontr)
  have ac: "acyclic (edge_rel es)" using topo built_topo_order_NotADag_iff [of es] by auto
  from count_paths_built [OF topo, of s] cnt have
    r: "\<forall>v \<in> insert s (endpoints es). count_of ways v =
         (if v = s then 1 else 0) + sum_list (map (\<lambda>(u, _). count_of ways u) (preds es v))"
    by auto
  assume "count_of ways t \<noteq> 0"
  with recurrence_pos_reach [OF ac _ r] tv have "(s, t) \<in> (edge_rel es)\<^sup>*" by blast
  then show False
  proof (cases rule: converse_rtranclE)
    case base with sv tv show False by simp
  next
    case (step z) with sv show False by (blast dest: edge_rel_endpoints)
  qed
qed

lemma enumerate_count_built:
  assumes topo: "topo_order (g_adj (build_graph es)) (g_nodes (build_graph es)) = Inr order"
    and cnt: "count_paths_from_source (g_adj (build_graph es)) (g_nodes (build_graph es)) order s = Inr ways"
    and tv: "t \<in> endpoints es"
    and en: "enumerate_paths_dfs fuel (g_adj (build_graph es)) s t = Some ps"
  shows "length ps = count_of ways t"
proof -
  have ac: "acyclic (edge_rel es)" using topo built_topo_order_NotADag_iff [of es] by auto
  define F where "F x v = (case count_paths_from_source (g_adj (build_graph es)) (g_nodes (build_graph es)) order x of
                          Inr w \<Rightarrow> count_of w v | Inl _ \<Rightarrow> 0)" for x v
  have fam: "\<forall>x \<in> endpoints es. \<forall>v \<in> endpoints es.
           F x v = (if v = x then 1 else 0) + sum_list (map (\<lambda>(y, _). F x y) (preds es v))"
    using topo by (rule built_count_family) (simp add: F_def)
  define W where "W u = (if u \<in> endpoints es then F u t else 0)" for u
  from family_target_weight [OF ac tv fam] have "W t = 1"
    and "\<forall>u. u \<noteq> t \<longrightarrow> W u = sum_list (map (\<lambda>(x, _). W x) (dd_get (g_adj (build_graph es)) u))"
    by (simp_all add: W_def [abs_def])
  from dfs_length(1) [OF this] en have len: "length ps = W s" by (simp add: enumerate_paths_dfs_def)
  show ?thesis
  proof (cases "s \<in> endpoints es")
    case True
    with len cnt show ?thesis by (simp add: W_def F_def)
  next
    case False
    with len count_outside_source [OF topo cnt tv False] show ?thesis by (simp add: W_def)
  qed
qed

text \<open>
  C16. The cross-check of the specification: on a built graph with the order
  \<open>topo_order\<close> returns, the enumeration from the source to any vertex returns
  exactly as many records as the counter's table holds for that vertex.
\<close>

theorem enumerate_paths_count:
  assumes topo: "topo_order (g_adj (build_graph es)) (g_nodes (build_graph es)) = Inr order"
    and cnt: "count_paths_from_source (g_adj (build_graph es)) (g_nodes (build_graph es)) order s = Inr ways"
    and tv: "t \<in> endpoints es"
    and en: "enumerate_paths_dfs fuel (g_adj (build_graph es)) s t = Some ps"
  shows "length ps = count_of ways t"
  using assms by (rule enumerate_count_built)

end
