(* ===== verification/Analyzer.thy ===== *)
theory Analyzer
  imports Graph_Builder
begin

text \<open>
  The Neighbor/Reachability Analyzer of src/low_level_problem.py:
  \<open>neighbors_undirected\<close> is the union of the successors in \<open>adj[node]\<close> and
  the predecessors in \<open>radj[node]\<close>; \<open>reachable_from_source\<close> is a loop over
  an explicit stack and a \<open>seen\<close> set. The stack is a list with its top first,
  so \<open>stack.pop()\<close> is the head and pushing the unseen successors of \<open>u\<close> in
  the order of \<open>adj[u]\<close> puts them in reverse order in front. The loop
  terminates for every (finite) adjacency dict: a round either drops a seen vertex
  from the stack or marks a new one, and every vertex that is marked and has
  successors is a key of \<open>adj\<close> (\<open>adj_universe\<close>), so the pair (unmarked
  vertices of the universe, stack length) decreases lexicographically.
\<close>

definition neighbors_undirected :: "adjmap \<Rightarrow> adjmap \<Rightarrow> vertex \<Rightarrow> vertex set" where
  "neighbors_undirected adj radj node = fst ` set (dd_get adj node) \<union> fst ` set (dd_get radj node)"

definition adj_universe :: "adjmap \<Rightarrow> vertex set" where
  "adj_universe adj = fst ` set adj"

lemma finite_adj_universe [simp]: "finite (adj_universe adj)"
  by (simp add: adj_universe_def)

lemma dd_get_not_key: "u \<notin> adj_universe adj \<Longrightarrow> dd_get adj u = []"
proof -
  assume "u \<notin> adj_universe adj"
  then have "map_of adj u = None" by (simp add: adj_universe_def map_of_eq_None_iff)
  then show ?thesis by (simp add: dd_get_def)
qed

text \<open>\<^verbatim>\<open>while stack: u = stack.pop(); if u in seen: continue; seen.add(u); ...\<close>\<close>

function reach_loop :: "adjmap \<Rightarrow> vertex set \<Rightarrow> vertex list \<Rightarrow> vertex set" where
  "reach_loop adj seen [] = seen"
| "reach_loop adj seen (u # stack) =
     (if u \<in> seen then reach_loop adj seen stack
      else reach_loop adj (insert u seen)
             (rev (filter (\<lambda>v. v \<notin> insert u seen) (map fst (dd_get adj u))) @ stack))"
  by pat_completeness auto
termination
proof (relation "measures [\<lambda>(adj, seen, stack). card (adj_universe adj - seen),
                            \<lambda>(adj, seen, stack). length stack]", goal_cases)
  case (3 adj seen u stack)
  show ?case
  proof (cases "u \<in> adj_universe adj")
    case True
    with 3 have u: "u \<in> adj_universe adj - seen" by simp
    have eq: "adj_universe adj - insert u seen = (adj_universe adj - seen) - {u}" by blast
    have "card (adj_universe adj - insert u seen) < card (adj_universe adj - seen)"
      unfolding eq using u by (intro card_Diff1_less) auto
    then show ?thesis using u by simp
  next
    case False
    then have "adj_universe adj - insert u seen = adj_universe adj - seen" by blast
    with False show ?thesis by (simp add: dd_get_not_key)
  qed
qed auto

definition reachable_from_source :: "adjmap \<Rightarrow> vertex \<Rightarrow> vertex set" where
  "reachable_from_source adj source = reach_loop adj {} [source]"

definition adj_targets :: "adjmap \<Rightarrow> vertex set" where
  "adj_targets adj = (\<Union>u. fst ` set (dd_get adj u))"

text \<open>The successor relation an adjacency dict describes.\<close>

definition adj_rel :: "adjmap \<Rightarrow> vertex rel" where
  "adj_rel adj = {(u, v). v \<in> fst ` set (dd_get adj u)}"

section \<open>Lemmas\<close>

lemma reach_loop_subset: "reach_loop adj seen st \<subseteq> seen \<union> set st \<union> adj_targets adj"
proof (induction adj seen st rule: reach_loop.induct)
  case (2 adj seen u stack)
  show ?case
  proof (cases "u \<in> seen")
    case True
    with "2.IH"(1) show ?thesis by auto
  next
    case False
    have "set (rev (filter (\<lambda>v. v \<notin> insert u seen) (map fst (dd_get adj u)))) \<subseteq> adj_targets adj"
      by (auto simp: adj_targets_def)
    with False "2.IH"(2) show ?thesis by auto
  qed
qed simp

lemma built_reachable_subset:
  "reachable_from_source (g_adj (build_graph es)) s \<subseteq> insert s (endpoints es)"
proof -
  have "adj_targets (g_adj (build_graph es)) \<subseteq> endpoints es"
    using succs_endpoints [of es] by (auto simp: adj_targets_def build_graph_adj)
  then show ?thesis
    using reach_loop_subset [of "g_adj (build_graph es)" "{}" "[s]"]
    by (auto simp: reachable_from_source_def)
qed

lemma reach_loop_sound: "reach_loop adj seen st \<subseteq> seen \<union> (adj_rel adj)\<^sup>* `` set st"
proof (induction adj seen st rule: reach_loop.induct)
  case (2 adj seen u stack)
  show ?case
  proof (cases "u \<in> seen")
    case True
    with "2.IH"(1) show ?thesis by auto
  next
    case False
    have "set (rev (filter (\<lambda>v. v \<notin> insert u seen) (map fst (dd_get adj u)))) \<subseteq> (adj_rel adj)\<^sup>* `` {u}"
      by (auto simp: adj_rel_def)
    then have "(adj_rel adj)\<^sup>* `` set (rev (filter (\<lambda>v. v \<notin> insert u seen) (map fst (dd_get adj u))) @ stack)
        \<subseteq> (adj_rel adj)\<^sup>* `` set (u # stack)"
      by (auto dest: rtrancl_trans)
    with False "2.IH"(2) show ?thesis by auto
  qed
qed simp

lemma reach_loop_closed:
  "\<forall>x \<in> seen. adj_rel adj `` {x} \<subseteq> seen \<union> set st \<Longrightarrow>
     seen \<union> set st \<subseteq> reach_loop adj seen st
     \<and> (\<forall>x \<in> reach_loop adj seen st. adj_rel adj `` {x} \<subseteq> reach_loop adj seen st)"
proof (induction adj seen st rule: reach_loop.induct)
  case (1 adj seen)
  then show ?case by simp
next
  case (2 adj seen u stack)
  show ?case
  proof (cases "u \<in> seen")
    case True
    with "2.prems" have "\<forall>x \<in> seen. adj_rel adj `` {x} \<subseteq> seen \<union> set stack" by auto
    from "2.IH"(1) [OF True this] True show ?thesis by auto
  next
    case False
    let ?new = "rev (filter (\<lambda>v. v \<notin> insert u seen) (map fst (dd_get adj u)))"
    have "\<forall>x \<in> insert u seen. adj_rel adj `` {x} \<subseteq> insert u seen \<union> set (?new @ stack)"
      using "2.prems" by (auto simp: adj_rel_def)
    from "2.IH"(2) [OF False this] False show ?thesis by auto
  qed
qed

lemma closed_rtrancl_subset:
  assumes "A \<subseteq> R" "\<forall>x \<in> R. E `` {x} \<subseteq> R"
  shows "E\<^sup>* `` A \<subseteq> R"
proof
  fix y assume "y \<in> E\<^sup>* `` A"
  then obtain a where a: "a \<in> A" and r: "(a, y) \<in> E\<^sup>*" by blast
  from r show "y \<in> R"
  proof (induction rule: rtrancl_induct)
    case base then show ?case using a assms(1) by blast
  next
    case (step y z) then show ?case using assms(2) by blast
  qed
qed

lemma reachable_from_source_rel: "reachable_from_source adj s = (adj_rel adj)\<^sup>* `` {s}"
proof
  show "reachable_from_source adj s \<subseteq> (adj_rel adj)\<^sup>* `` {s}"
    using reach_loop_sound [of adj "{}" "[s]"] by (simp add: reachable_from_source_def)
next
  from reach_loop_closed [of "{}" adj "[s]"]
  have "{s} \<subseteq> reachable_from_source adj s"
    and "\<forall>x \<in> reachable_from_source adj s. adj_rel adj `` {x} \<subseteq> reachable_from_source adj s"
    by (simp_all add: reachable_from_source_def)
  then show "(adj_rel adj)\<^sup>* `` {s} \<subseteq> reachable_from_source adj s" by (rule closed_rtrancl_subset)
qed

lemma built_adj_rel: "adj_rel (g_adj (build_graph es)) = edge_rel es"
  by (simp add: adj_rel_def build_graph_adj edge_rel_succs [symmetric])

text \<open>
  C13. On a built graph the stack traversal computes exactly the vertices reachable from
  the source along the edges (the source included, also when it is not a vertex), and
  the undirected neighbours of a vertex are exactly the vertices joined to it by an edge
  in either direction.
\<close>

theorem analyzer_spec:
  "reachable_from_source (g_adj (build_graph es)) s = {v. (s, v) \<in> (edge_rel es)\<^sup>*}
   \<and> neighbors_undirected (g_adj (build_graph es)) (g_radj (build_graph es)) V =
       {v. (V, v) \<in> edge_rel es \<or> (v, V) \<in> edge_rel es}"
proof -
  have "fst ` set (succs es V) = {v. (V, v) \<in> edge_rel es}" by (simp add: edge_rel_succs)
  moreover have "fst ` set (preds es V) = {v. (v, V) \<in> edge_rel es}" by (simp add: edge_rel_preds)
  ultimately show ?thesis
    by (auto simp: reachable_from_source_rel built_adj_rel neighbors_undirected_def build_graph_adj
        build_graph_radj)
qed

end
