(* ===== verification/Insertion_Planner.thy ===== *)
theory Insertion_Planner
  imports Topo_Sort Path_Count Analyzer
begin

text \<open>
  The Insertion Planner, \<open>propose_V_prime_insertion\<close> of
  src/low_level_problem.py. The returned Python dict is one of two records: the
  infeasibility report (\<open>"possible": False\<close>) and the proposal
  (\<open>"possible": True\<close>); the \<open>"reason"\<close> text is display only and not
  modelled, its numbers are the report's fields. The optional argument
  \<open>vprime\<close> is an \<open>option\<close>, \<open>allow_v_as_parent\<close> a \<open>bool\<close>. Every
  dict read of the code is a \<open>dict_get\<close> that may raise \<open>KeyError\<close>, in the
  code's order; Python's sets \<open>NV\<close> and \<open>reach\<close> are HOL sets and
  \<open>sorted(...)\<close> of a set is \<open>sorted_list_of_set\<close>.
\<close>

record infeasible_report =
  inf_V :: vertex
  inf_waysV :: nat
  inf_cap :: nat
  inf_allowed :: "vertex list"
  inf_neighborsV :: "vertex list"

record proposal =
  pr_V :: vertex
  pr_waysV :: nat
  pr_V_prime :: vertex
  pr_waysV_prime :: nat
  pr_becomes_most_reachable :: bool
  pr_neighborsV :: "vertex list"
  pr_allowed :: "vertex list"
  pr_picked :: "vertex list"
  pr_insertion_edges :: "edge list"

datatype insertion_result = Impossible infeasible_report | Possible proposal

text \<open>The policy line: \<^verbatim>\<open>allowed = sorted(reach - NV)\<close> or \<^verbatim>\<open>sorted(reach - NV - {V})\<close>.\<close>

definition allowed_parents :: "bool \<Rightarrow> vertex set \<Rightarrow> vertex set \<Rightarrow> vertex \<Rightarrow> vertex list" where
  "allowed_parents allow_v reach NV V =
     (if allow_v then sorted_list_of_set (reach - NV) else sorted_list_of_set (reach - NV - {V}))"

text \<open>\<^verbatim>\<open>sorted(allowed, key=lambda x: ways[x], reverse=True)\<close>: the keys are read
  first, then a stable sort by decreasing count.\<close>

definition sort_by_ways_desc :: "ways \<Rightarrow> vertex list \<Rightarrow> py_error + vertex list" where
  "sort_by_ways_desc ways xs =
     bind_res (dict_get_all ways xs) (\<lambda>cs.
       Inr (map fst (sort_key (\<lambda>(u, c). - int c) (zip xs cs))))"

text \<open>\<^verbatim>\<open>for u in ...: pick.append(u); acc += ways[u]; if acc > ways[V]: break\<close>\<close>

fun greedy_pick :: "ways \<Rightarrow> nat \<Rightarrow> vertex list \<Rightarrow> vertex list \<Rightarrow> nat \<Rightarrow> py_error + vertex list \<times> nat" where
  "greedy_pick ways lim [] pick acc = Inr (pick, acc)"
| "greedy_pick ways lim (u # us) pick acc =
     bind_res (dict_get ways u) (\<lambda>c.
       if lim < acc + c then Inr (pick @ [u], acc + c)
       else greedy_pick ways lim us (pick @ [u]) (acc + c))"

text \<open>The second pass on the augmented graph: Build, Sort, Count and the maximum.\<close>

definition recount :: "edge list \<Rightarrow> vertex \<Rightarrow> py_error + ways \<times> vertex" where
  "recount edges source =
     (let g = build_graph edges in
      bind_res (topo_order (g_adj g) (g_nodes g)) (\<lambda>order.
      bind_res (count_paths_from_source (g_adj g) (g_nodes g) order source) (\<lambda>ways.
      bind_res (dict_max_key ways (g_nodes g)) (\<lambda>V. Inr (ways, V)))))"

definition propose_V_prime_insertion ::
  "edge list \<Rightarrow> vertex \<Rightarrow> vertex option \<Rightarrow> bool \<Rightarrow> py_error + insertion_result" where
  "propose_V_prime_insertion edges source vprime allow_v =
     (let g = build_graph edges; adj = g_adj g; radj = g_radj g; nodes = g_nodes g in
      bind_res (topo_order adj nodes) (\<lambda>order.
      bind_res (count_paths_from_source adj nodes order source) (\<lambda>ways.
      bind_res (dict_max_key ways nodes) (\<lambda>V.
      let NV = neighbors_undirected adj radj V;
          reach = reachable_from_source adj source;
          allowed = allowed_parents allow_v reach NV V in
      bind_res (dict_get_all ways allowed) (\<lambda>cs.
      let cap = sum_list cs in
      bind_res (dict_get ways V) (\<lambda>waysV.
      if cap \<le> waysV then
        Inr (Impossible \<lparr>inf_V = V, inf_waysV = waysV, inf_cap = cap, inf_allowed = allowed,
                         inf_neighborsV = sorted_list_of_set NV\<rparr>)
      else
      bind_res (case vprime of None \<Rightarrow> bind_res (py_max_key id nodes) (\<lambda>m. Inr (m + 1))
                             | Some x \<Rightarrow> Inr x) (\<lambda>vp.
      bind_res (sort_by_ways_desc ways allowed) (\<lambda>candidates.
      bind_res (greedy_pick ways waysV candidates [] 0) (\<lambda>(pick, acc).
      let insertion_edges = map (\<lambda>u. (u, vp, 0)) pick in
      bind_res (recount (edges @ insertion_edges) source) (\<lambda>(ways2, V2).
      bind_res (dict_get ways2 vp) (\<lambda>waysVp.
      Inr (Possible \<lparr>pr_V = V, pr_waysV = waysV, pr_V_prime = vp, pr_waysV_prime = waysVp,
                     pr_becomes_most_reachable = (V2 = vp), pr_neighborsV = sorted_list_of_set NV,
                     pr_allowed = allowed, pr_picked = pick,
                     pr_insertion_edges = insertion_edges\<rparr>))))))))))))"

text \<open>Names for the values the planner computes from its input, used in the statements below.\<close>

abbreviation planner_NV :: "edge list \<Rightarrow> vertex \<Rightarrow> vertex set" where
  "planner_NV es V \<equiv> neighbors_undirected (g_adj (build_graph es)) (g_radj (build_graph es)) V"

abbreviation planner_allowed :: "edge list \<Rightarrow> vertex \<Rightarrow> bool \<Rightarrow> vertex \<Rightarrow> vertex list" where
  "planner_allowed es s a V \<equiv>
     allowed_parents a (reachable_from_source (g_adj (build_graph es)) s) (planner_NV es V) V"

abbreviation fresh_id :: "edge list \<Rightarrow> vertex option \<Rightarrow> vertex" where
  "fresh_id es vp \<equiv> (case vp of None \<Rightarrow> Max (endpoints es) + 1 | Some x \<Rightarrow> x)"

section \<open>Lemmas on the greedy choice\<close>

lemma greedy_pick_ok:
  assumes "set us \<subseteq> dom (map_of ways)"
  shows "\<exists>k \<le> length us. greedy_pick ways lim us pick acc =
       Inr (pick @ take k us, acc + sum_list (map (\<lambda>u. the (map_of ways u)) (take k us)))
     \<and> (acc \<le> lim \<and> lim < acc + sum_list (map (\<lambda>u. the (map_of ways u)) us) \<longrightarrow>
          0 < k \<and> lim < acc + sum_list (map (\<lambda>u. the (map_of ways u)) (take k us))
          \<and> acc + sum_list (map (\<lambda>u. the (map_of ways u)) (take (k - 1) us)) \<le> lim)"
  using assms
proof (induction us arbitrary: pick acc)
  case Nil
  then show ?case by simp
next
  case (Cons u us)
  let ?W = "\<lambda>u. the (map_of ways u)"
  from Cons.prems obtain c where c: "map_of ways u = Some c" by auto
  show ?case
  proof (cases "lim < acc + c")
    case True
    then have "greedy_pick ways lim (u # us) pick acc = Inr (pick @ take 1 (u # us), acc + sum_list (map ?W (take 1 (u # us))))"
      using c by (simp add: dict_get_def)
    with True c show ?thesis by (intro exI [of _ 1]) auto
  next
    case False
    from Cons.prems obtain k where k: "k \<le> length us"
      and r: "greedy_pick ways lim us (pick @ [u]) (acc + c) =
        Inr ((pick @ [u]) @ take k us, (acc + c) + sum_list (map ?W (take k us)))"
      and mn: "acc + c \<le> lim \<and> lim < (acc + c) + sum_list (map ?W us) \<longrightarrow>
          0 < k \<and> lim < (acc + c) + sum_list (map ?W (take k us))
          \<and> (acc + c) + sum_list (map ?W (take (k - 1) us)) \<le> lim"
      using Cons.IH [of "pick @ [u]" "acc + c"] by auto
    have "greedy_pick ways lim (u # us) pick acc =
       Inr (pick @ take (Suc k) (u # us), acc + sum_list (map ?W (take (Suc k) (u # us))))"
      using False c r by (simp add: dict_get_def add.assoc)
    moreover have "acc \<le> lim \<and> lim < acc + sum_list (map ?W (u # us)) \<longrightarrow>
          0 < Suc k \<and> lim < acc + sum_list (map ?W (take (Suc k) (u # us)))
          \<and> acc + sum_list (map ?W (take (Suc k - 1) (u # us))) \<le> lim"
    proof
      assume h: "acc \<le> lim \<and> lim < acc + sum_list (map ?W (u # us))"
      with False c have "acc + c \<le> lim \<and> lim < (acc + c) + sum_list (map ?W us)" by simp
      with mn have "0 < k" and l1: "lim < (acc + c) + sum_list (map ?W (take k us))"
        and l2: "(acc + c) + sum_list (map ?W (take (k - 1) us)) \<le> lim" by auto
      from \<open>0 < k\<close> have "take k (u # us) = u # take (k - 1) us" by (cases k) auto
      with l1 l2 c show "0 < Suc k \<and> lim < acc + sum_list (map ?W (take (Suc k) (u # us)))
          \<and> acc + sum_list (map ?W (take (Suc k - 1) (u # us))) \<le> lim"
        by (simp add: add.assoc)
    qed
    ultimately show ?thesis using k by (intro exI [of _ "Suc k"]) simp
  qed
qed

lemma sort_by_ways_desc_ok:
  assumes "set xs \<subseteq> dom (map_of ways)"
  shows "\<exists>ys. sort_by_ways_desc ways xs = Inr ys \<and> mset ys = mset xs
     \<and> sorted (map (\<lambda>u. - int (the (map_of ways u))) ys)"
proof -
  let ?W = "\<lambda>u. the (map_of ways u)"
  let ?l = "map (\<lambda>u. (u, ?W u)) xs"
  have z: "zip xs (map ?W xs) = ?l" by (simp add: zip_map2 zip_same_conv_map)
  let ?ys = "map fst (sort_key (\<lambda>(u, c). - int c) ?l)"
  have r: "sort_by_ways_desc ways xs = Inr ?ys"
    using assms by (simp add: sort_by_ways_desc_def dict_get_all_ok z)
  have "mset ?ys = image_mset fst (mset (sort_key (\<lambda>(u, c). - int c) ?l))" by simp
  also have "\<dots> = mset xs" by (simp add: mset_map multiset.map_comp o_def)
  finally have m: "mset ?ys = mset xs" .
  have snd_eq: "\<forall>p \<in> set (sort_key (\<lambda>(u, c). - int c) ?l). snd p = ?W (fst p)" by auto
  have "sorted (map (\<lambda>(u, c). - int c) (sort_key (\<lambda>(u, c). - int c) ?l))"
    by (rule sorted_sort_key)
  moreover have "map (\<lambda>(u, c). - int c) (sort_key (\<lambda>(u, c). - int c) ?l) = map (\<lambda>u. - int (?W u)) ?ys"
    using snd_eq by (induction "sort_key (\<lambda>(u, c). - int c) ?l") auto
  ultimately have "sorted (map (\<lambda>u. - int (?W u)) ?ys)" by simp
  with r m show ?thesis by blast
qed

lemma allowed_parents_set:
  "finite R \<Longrightarrow> set (allowed_parents a R NV V) = R - NV - (if a then {} else {V})
     \<and> distinct (allowed_parents a R NV V)"
  by (simp add: allowed_parents_def)

lemma planner_pick:
  assumes sub: "set xs \<subseteq> dom (map_of ways)" and d: "distinct xs"
    and big: "lim < sum_list (map (count_of ways) xs)"
  shows "\<exists>cands pick acc. sort_by_ways_desc ways xs = Inr cands
     \<and> greedy_pick ways lim cands [] 0 = Inr (pick, acc)
     \<and> pick \<noteq> [] \<and> set pick \<subseteq> set xs \<and> distinct pick
     \<and> sorted (map (\<lambda>u. - int (count_of ways u)) pick)
     \<and> (\<forall>u \<in> set xs - set pick. \<forall>w \<in> set pick. count_of ways u \<le> count_of ways w)
     \<and> lim < sum_list (map (count_of ways) pick)
     \<and> sum_list (map (count_of ways) (butlast pick)) \<le> lim"
proof -
  from sort_by_ways_desc_ok [OF sub] obtain ys where s: "sort_by_ways_desc ways xs = Inr ys"
    and m: "mset ys = mset xs" and so: "sorted (map (\<lambda>u. - int (count_of ways u)) ys)" by blast
  have sy: "set ys = set xs" using m by (metis set_mset_mset)
  have dy: "distinct ys" using mset_eq_imp_distinct_iff [OF m] d by simp
  have "sum_list (map (count_of ways) ys) = sum_list (map (count_of ways) xs)"
    by (rule sum_list_map_mset_eq [OF m])
  with big have big': "0 \<le> lim \<and> lim < 0 + sum_list (map (count_of ways) ys)" by simp
  have sub': "set ys \<subseteq> dom (map_of ways)" using sub sy by simp
  from greedy_pick_ok [OF sub', of lim "[]" 0] obtain k where k: "k \<le> length ys"
    and g0: "greedy_pick ways lim ys [] 0 = Inr ([] @ take k ys, 0 + sum_list (map (count_of ways) (take k ys)))"
    and imp: "0 \<le> lim \<and> lim < 0 + sum_list (map (count_of ways) ys) \<longrightarrow>
          0 < k \<and> lim < 0 + sum_list (map (count_of ways) (take k ys))
          \<and> 0 + sum_list (map (count_of ways) (take (k - 1) ys)) \<le> lim"
    by blast
  from imp big' have k0: "0 < k" and over: "lim < sum_list (map (count_of ways) (take k ys))"
    and under: "sum_list (map (count_of ways) (take (k - 1) ys)) \<le> lim"
    by simp_all
  from g0 have g: "greedy_pick ways lim ys [] 0 = Inr (take k ys, sum_list (map (count_of ways) (take k ys)))"
    by simp
  have "take k ys \<noteq> []" using k k0 by (cases ys) auto
  moreover have "set (take k ys) \<subseteq> set xs" using sy set_take_subset [of k ys] by blast
  moreover have "distinct (take k ys)" using dy by simp
  moreover have "sorted (map (\<lambda>u. - int (count_of ways u)) (take k ys))"
    using sorted_wrt_take [OF so, of k] by (simp add: take_map)
  moreover have "\<forall>u \<in> set xs - set (take k ys). \<forall>w \<in> set (take k ys). count_of ways u \<le> count_of ways w"
  proof (intro ballI)
    fix u w assume u: "u \<in> set xs - set (take k ys)" and w: "w \<in> set (take k ys)"
    have "set ys = set (take k ys) \<union> set (drop k ys)" by (metis append_take_drop_id set_append)
    with u sy have "u \<in> set (drop k ys)" by blast
    from sorted_prefix_dominates [OF so this w] show "count_of ways u \<le> count_of ways w" .
  qed
  moreover have "sum_list (map (count_of ways) (butlast (take k ys))) \<le> lim"
    using under by (simp only: butlast_take [OF k])
  ultimately show ?thesis using s g over by (intro exI conjI) assumption+
qed

section \<open>The two passes of the planner\<close>

lemma recount_Inr:
  "recount es s = Inr (ways, V) \<longleftrightarrow>
     (\<exists>order. topo_order (g_adj (build_graph es)) (g_nodes (build_graph es)) = Inr order
       \<and> count_paths_from_source (g_adj (build_graph es)) (g_nodes (build_graph es)) order s = Inr ways
       \<and> dict_max_key ways (g_nodes (build_graph es)) = Inr V)"
  by (auto simp: recount_def Let_def bind_res_def split: sum.splits)

lemma recount_facts:
  assumes "recount es s = Inr (ways, V)"
  shows "acyclic (edge_rel es) \<and> dom (map_of ways) = insert s (endpoints es) \<and> V \<in> endpoints es
     \<and> (\<forall>y \<in> endpoints es. count_of ways y \<le> count_of ways V)
     \<and> (\<forall>v \<in> insert s (endpoints es). count_of ways v =
           (if v = s then 1 else 0) + sum_list (map (\<lambda>(u, _). count_of ways u) (preds es v)))"
proof -
  from assms obtain order where t: "topo_order (g_adj (build_graph es)) (g_nodes (build_graph es)) = Inr order"
    and c: "count_paths_from_source (g_adj (build_graph es)) (g_nodes (build_graph es)) order s = Inr ways"
    and m: "dict_max_key ways (g_nodes (build_graph es)) = Inr V"
    unfolding recount_Inr by blast
  have ac: "acyclic (edge_rel es)" using t built_topo_order_NotADag_iff [of es] by auto
  from count_paths_built [OF t, of s] c
  have rec: "dom (map_of ways) = insert s (endpoints es)
     \<and> (\<forall>v \<in> insert s (endpoints es). count_of ways v =
           (if v = s then 1 else 0) + sum_list (map (\<lambda>(u, _). count_of ways u) (preds es v)))"
    by auto
  from dict_max_key_Inr [OF m] build_graph_nodes [of es]
  have "V \<in> endpoints es \<and> (\<forall>y \<in> endpoints es. count_of ways y \<le> count_of ways V)" by simp
  with ac rec show ?thesis by blast
qed

lemma recount_total:
  assumes ne: "es \<noteq> []" and ac: "acyclic (edge_rel es)"
  shows "\<exists>ways V. recount es s = Inr (ways, V)"
proof -
  have "topo_order (g_adj (build_graph es)) (g_nodes (build_graph es)) \<in> insert (Inl NotADag) (range Inr)"
    by (rule built_topo_order_cases [of es]) auto
  with ac built_topo_order_NotADag_iff [of es]
  obtain order where t: "topo_order (g_adj (build_graph es)) (g_nodes (build_graph es)) = Inr order"
    by auto
  from count_paths_built [OF t, of s] obtain ways where
    c: "count_paths_from_source (g_adj (build_graph es)) (g_nodes (build_graph es)) order s = Inr ways"
    and d: "dom (map_of ways) = insert s (endpoints es)" by blast
  have "g_nodes (build_graph es) \<noteq> []" "set (g_nodes (build_graph es)) \<subseteq> dom (map_of ways)"
    using build_graph_nodes [of es] ne d endpoints_Nil_iff [of es] by auto
  from dict_max_key_ok [OF this] obtain V where "dict_max_key ways (g_nodes (build_graph es)) = Inr V" ..
  with t c show ?thesis unfolding recount_Inr by blast
qed

lemma recount_cyclic: "\<not> acyclic (edge_rel es) \<Longrightarrow> recount es s = Inl NotADag"
  using built_topo_order_NotADag_iff [of es] by (simp add: recount_def)

lemma recount_augmented:
  assumes r: "recount es s = Inr (ways, V)" and s: "s \<in> endpoints es"
    and x: "x \<notin> endpoints es" and pne: "pick \<noteq> []" and ps: "set pick \<subseteq> endpoints es"
    and big: "count_of ways V < sum_list (map (count_of ways) pick)"
  shows "\<exists>ways2. recount (es @ map (\<lambda>u. (u, x, 0)) pick) s = Inr (ways2, x)
     \<and> (\<forall>v \<in> endpoints es. count_of ways2 v = count_of ways v)
     \<and> count_of ways2 x = sum_list (map (count_of ways) pick)
     \<and> x \<in> dom (map_of ways2)"
proof -
  let ?es2 = "es @ map (\<lambda>u. (u, x, 0)) pick"
  from recount_facts [OF r] have ac: "acyclic (edge_rel es)"
    and maxV: "\<forall>y \<in> endpoints es. count_of ways y \<le> count_of ways V"
    and rec: "\<forall>v \<in> insert s (endpoints es). count_of ways v =
           (if v = s then 1 else 0) + sum_list (map (\<lambda>(u, _). count_of ways u) (preds es v))"
    by blast+
  have ep2: "endpoints ?es2 = insert x (endpoints es)"
    using endpoints_sink_edges [OF pne, of x 0] ps by auto
  have "x \<notin> Domain (edge_rel es)" using x edge_rel_endpoints [of x _ es] by blast
  moreover have "x \<notin> set pick" using x ps by blast
  ultimately have ac2: "acyclic (edge_rel ?es2)"
    using acyclic_add_sink [OF ac] by (simp add: edge_rel_sink_edges)
  have "?es2 \<noteq> []" using pne by simp
  from recount_total [OF this ac2, of s] obtain ways2 V2 where r2: "recount ?es2 s = Inr (ways2, V2)"
    by blast
  from recount_facts [OF r2] ep2 have d2: "x \<in> dom (map_of ways2)"
    and V2: "V2 \<in> insert x (endpoints es)"
    and max2: "\<forall>y \<in> insert x (endpoints es). count_of ways2 y \<le> count_of ways2 V2"
    and rec2: "\<forall>v \<in> insert s (insert x (endpoints es)). count_of ways2 v =
           (if v = s then 1 else 0) + sum_list (map (\<lambda>(u, _). count_of ways2 u) (preds ?es2 v))"
    by auto
  have rec2': "\<forall>v \<in> endpoints es. count_of ways2 v =
           (if v = s then 1 else 0) + sum_list (map (\<lambda>(u, _). count_of ways2 u) (preds es v))"
    using rec2 x by (auto simp: preds_sink_edges)
  have same: "\<forall>v \<in> endpoints es. count_of ways2 v = count_of ways v"
    using recurrence_unique [OF ac subset_refl rec2'] rec s by (simp add: insert_absorb)
  have "map (count_of ways2) pick = map (count_of ways) pick"
    using same ps by (auto intro: map_cong)
  moreover have "count_of ways2 x = sum_list (map (count_of ways2) pick)"
    using rec2 x s by (auto simp: preds_sink_edges preds_not_endpoint o_def)
  ultimately have wx: "count_of ways2 x = sum_list (map (count_of ways) pick)" by (simp only:)
  have "V2 = x"
  proof (rule ccontr)
    assume "V2 \<noteq> x"
    with V2 have v: "V2 \<in> endpoints es" by simp
    have "count_of ways2 x \<le> count_of ways2 V2" using max2 by blast
    also have "\<dots> = count_of ways V2" using same v by blast
    also have "\<dots> \<le> count_of ways V" using maxV v by blast
    finally show False using big wx by simp
  qed
  with r2 same wx d2 show ?thesis by blast
qed

lemma planner_allowed_facts:
  assumes "recount es s = Inr (ways, V)"
  shows "set (planner_allowed es s a V) =
       reachable_from_source (g_adj (build_graph es)) s - planner_NV es V - (if a then {} else {V})
     \<and> distinct (planner_allowed es s a V)
     \<and> set (planner_allowed es s a V) \<subseteq> insert s (endpoints es)
     \<and> set (planner_allowed es s a V) \<subseteq> dom (map_of ways)"
proof -
  have fin: "finite (reachable_from_source (g_adj (build_graph es)) s)"
    by (rule finite_subset [OF built_reachable_subset]) simp
  from recount_facts [OF assms] have "dom (map_of ways) = insert s (endpoints es)" by blast
  with allowed_parents_set [OF fin] built_reachable_subset [of es s] show ?thesis by auto
qed

lemma propose_first_pass:
  assumes "recount es s = Inr (ways, V)"
  obtains order where
    "topo_order (g_adj (build_graph es)) (g_nodes (build_graph es)) = Inr order"
    "count_paths_from_source (g_adj (build_graph es)) (g_nodes (build_graph es)) order s = Inr ways"
    "dict_max_key ways (g_nodes (build_graph es)) = Inr V"
    "dict_get ways V = Inr (count_of ways V)"
    "dict_get_all ways (planner_allowed es s a V) = Inr (map (count_of ways) (planner_allowed es s a V))"
proof -
  from assms obtain order where
    "topo_order (g_adj (build_graph es)) (g_nodes (build_graph es)) = Inr order"
    "count_paths_from_source (g_adj (build_graph es)) (g_nodes (build_graph es)) order s = Inr ways"
    "dict_max_key ways (g_nodes (build_graph es)) = Inr V"
    unfolding recount_Inr by blast
  moreover have "dict_get ways V = Inr (count_of ways V)"
    using recount_facts [OF assms] by (intro dict_get_dom) blast
  moreover have "dict_get_all ways (planner_allowed es s a V) = Inr (map (count_of ways) (planner_allowed es s a V))"
    using planner_allowed_facts [OF assms] by (intro dict_get_all_ok) blast
  ultimately show ?thesis using that by blast
qed

lemma fresh_id_eval:
  assumes "es \<noteq> []"
  shows "(case vp of None \<Rightarrow> bind_res (py_max_key id (g_nodes (build_graph es))) (\<lambda>m. Inr (m + 1))
                     | Some x \<Rightarrow> Inr x) = Inr (fresh_id es vp)"
proof (cases vp)
  case None
  have "g_nodes (build_graph es) \<noteq> []" using assms build_graph_nodes [of es] endpoints_Nil_iff [of es] by auto
  from py_max_key_id [OF this] None build_graph_nodes [of es] show ?thesis by simp
qed simp

text \<open>
  C7. When the first pass succeeds and the capacity (the summed counts of the allowed
  parents) does not exceed \<open>ways[V]\<close>, the planner returns the infeasibility report,
  with exactly the first pass's \<open>V\<close> and count, the capacity, the allowed parents and
  the sorted neighbours of \<open>V\<close>.
\<close>

theorem propose_infeasible:
  assumes r: "recount es s = Inr (ways, V)"
    and cap: "sum_list (map (count_of ways) (planner_allowed es s a V)) \<le> count_of ways V"
  shows "propose_V_prime_insertion es s vp a =
     Inr (Impossible \<lparr>inf_V = V, inf_waysV = count_of ways V,
                      inf_cap = sum_list (map (count_of ways) (planner_allowed es s a V)),
                      inf_allowed = planner_allowed es s a V,
                      inf_neighborsV = sorted_list_of_set (planner_NV es V)\<rparr>)"
proof -
  obtain order where
    "topo_order (g_adj (build_graph es)) (g_nodes (build_graph es)) = Inr order"
    "count_paths_from_source (g_adj (build_graph es)) (g_nodes (build_graph es)) order s = Inr ways"
    "dict_max_key ways (g_nodes (build_graph es)) = Inr V"
    "dict_get ways V = Inr (count_of ways V)"
    "dict_get_all ways (planner_allowed es s a V) = Inr (map (count_of ways) (planner_allowed es s a V))"
    using r by (rule propose_first_pass)
  with cap show ?thesis by (simp add: propose_V_prime_insertion_def Let_def)
qed

lemma propose_feasible_run:
  assumes r: "recount es s = Inr (ways, V)" and s: "s \<in> endpoints es"
    and fresh: "fresh_id es vp \<notin> endpoints es"
    and cap: "count_of ways V < sum_list (map (count_of ways) (planner_allowed es s a V))"
  shows "\<exists>p. propose_V_prime_insertion es s vp a = Inr (Possible p)
     \<and> pr_V p = V \<and> pr_waysV p = count_of ways V \<and> pr_allowed p = planner_allowed es s a V
     \<and> pr_neighborsV p = sorted_list_of_set (planner_NV es V) \<and> pr_V_prime p = fresh_id es vp
     \<and> set (pr_picked p) \<subseteq> set (pr_allowed p) \<and> distinct (pr_picked p)
     \<and> sorted (map (\<lambda>u. - int (count_of ways u)) (pr_picked p))
     \<and> (\<forall>u \<in> set (pr_allowed p) - set (pr_picked p). \<forall>w \<in> set (pr_picked p).
          count_of ways u \<le> count_of ways w)
     \<and> count_of ways V < sum_list (map (count_of ways) (pr_picked p))
     \<and> sum_list (map (count_of ways) (butlast (pr_picked p))) \<le> count_of ways V
     \<and> pr_insertion_edges p = map (\<lambda>u. (u, pr_V_prime p, 0)) (pr_picked p)
     \<and> pr_waysV_prime p = sum_list (map (count_of ways) (pr_picked p))
     \<and> pr_becomes_most_reachable p"
proof -
  let ?A = "planner_allowed es s a V"
  let ?x = "fresh_id es vp"
  obtain order where fp:
    "topo_order (g_adj (build_graph es)) (g_nodes (build_graph es)) = Inr order"
    "count_paths_from_source (g_adj (build_graph es)) (g_nodes (build_graph es)) order s = Inr ways"
    "dict_max_key ways (g_nodes (build_graph es)) = Inr V"
    "dict_get ways V = Inr (count_of ways V)"
    "dict_get_all ways ?A = Inr (map (count_of ways) ?A)"
    using r by (rule propose_first_pass)
  from planner_allowed_facts [OF r, of a] s have dA: "distinct ?A"
    and subA: "set ?A \<subseteq> dom (map_of ways)" and epA: "set ?A \<subseteq> endpoints es"
    by (auto simp: insert_absorb)
  from planner_pick [OF subA dA cap] obtain cands pick acc where
    sc: "sort_by_ways_desc ways ?A = Inr cands" and g: "greedy_pick ways (count_of ways V) cands [] 0 = Inr (pick, acc)"
    and pne: "pick \<noteq> []" and psub: "set pick \<subseteq> set ?A" and pd: "distinct pick"
    and pso: "sorted (map (\<lambda>u. - int (count_of ways u)) pick)"
    and pdom: "\<forall>u \<in> set ?A - set pick. \<forall>w \<in> set pick. count_of ways u \<le> count_of ways w"
    and over: "count_of ways V < sum_list (map (count_of ways) pick)"
    and under: "sum_list (map (count_of ways) (butlast pick)) \<le> count_of ways V"
    by blast
  have "set pick \<subseteq> endpoints es" using psub epA by blast
  from recount_augmented [OF r s fresh pne this over] obtain ways2 where
    r2: "recount (es @ map (\<lambda>u. (u, ?x, 0)) pick) s = Inr (ways2, ?x)"
    and w2: "count_of ways2 ?x = sum_list (map (count_of ways) pick)"
    and d2: "?x \<in> dom (map_of ways2)" by blast
  have vpv: "(case vp of None \<Rightarrow> bind_res (py_max_key id (g_nodes (build_graph es))) (\<lambda>m. Inr (m + 1))
                     | Some x \<Rightarrow> Inr x) = Inr ?x"
    using s by (intro fresh_id_eval) auto
  let ?P = "\<lparr>pr_V = V, pr_waysV = count_of ways V, pr_V_prime = ?x,
                    pr_waysV_prime = sum_list (map (count_of ways) pick),
                    pr_becomes_most_reachable = True, pr_neighborsV = sorted_list_of_set (planner_NV es V),
                    pr_allowed = ?A, pr_picked = pick,
                    pr_insertion_edges = map (\<lambda>u. (u, ?x, 0)) pick\<rparr>"
  have "propose_V_prime_insertion es s vp a = Inr (Possible ?P)"
    using fp cap vpv sc g r2 dict_get_dom [OF d2] w2
    by (simp add: propose_V_prime_insertion_def Let_def)
  then show ?thesis using psub pd pso pdom over under by (intro exI [of _ ?P]) simp
qed

text \<open>
  C8. When the first pass succeeds, the source is a vertex, the new vertex \<open>V'\<close>
  (the caller's or \<open>max(nodes) + 1\<close>) is fresh, and the capacity exceeds \<open>ways[V]\<close>,
  the planner returns a proposal: the picked parents are distinct allowed parents in
  descending order of count, every allowed parent left out counts no more than any picked
  one, their sum exceeds \<open>ways[V]\<close> while the sum without the last pick does not (the
  shortest greedy prefix), the new edges join each pick to \<open>V'\<close> with weight 0, the
  second pass counts \<open>sum(ways[u] for u in picked)\<close> paths to \<open>V'\<close>, and
  \<open>V'\<close> becomes the unique most reachable vertex.
\<close>

theorem propose_feasible:
  assumes r: "recount es s = Inr (ways, V)" and s: "s \<in> endpoints es"
    and fresh: "fresh_id es vp \<notin> endpoints es"
    and cap: "count_of ways V < sum_list (map (count_of ways) (planner_allowed es s a V))"
  shows "\<exists>p. propose_V_prime_insertion es s vp a = Inr (Possible p)
     \<and> pr_V p = V \<and> pr_waysV p = count_of ways V \<and> pr_allowed p = planner_allowed es s a V
     \<and> pr_neighborsV p = sorted_list_of_set (planner_NV es V) \<and> pr_V_prime p = fresh_id es vp
     \<and> set (pr_picked p) \<subseteq> set (pr_allowed p) \<and> distinct (pr_picked p)
     \<and> sorted (map (\<lambda>u. - int (count_of ways u)) (pr_picked p))
     \<and> (\<forall>u \<in> set (pr_allowed p) - set (pr_picked p). \<forall>w \<in> set (pr_picked p).
          count_of ways u \<le> count_of ways w)
     \<and> count_of ways V < sum_list (map (count_of ways) (pr_picked p))
     \<and> sum_list (map (count_of ways) (butlast (pr_picked p))) \<le> count_of ways V
     \<and> pr_insertion_edges p = map (\<lambda>u. (u, pr_V_prime p, 0)) (pr_picked p)
     \<and> pr_waysV_prime p = sum_list (map (count_of ways) (pr_picked p))
     \<and> pr_becomes_most_reachable p"
  using assms by (rule propose_feasible_run)

text \<open>
  C9. On an edge list whose graph has a cycle the planner raises the cycle error of the
  first pass, whatever the source, \<open>vprime\<close> and policy.
\<close>

theorem propose_cyclic:
  assumes "\<not> acyclic (edge_rel es)"
  shows "propose_V_prime_insertion es s vp a = Inl NotADag"
  using built_topo_order_NotADag_iff [of es] assms
  by (simp add: propose_V_prime_insertion_def Let_def)

end
