(* ===== verification/Edge_Format.thy ===== *)
theory Edge_Format
  imports Prelude
begin

text \<open>
  The output format of item 5 (\<open>solve_item5\<close> of src/low_level_problem.py): every
  inserted edge is printed as \<^verbatim>\<open>f"{{{u}, {v}, {w}}}"\<close>, the input format
  \<open>{u, v, w}\<close> of the problem statement. \<open>string_of_int\<close> is Python's
  \<open>str\<close> of an \<open>int\<close> (decimal digits, a minus sign for a negative
  number). The parser \<open>parse_edge\<close> is the reading of the input format that the
  statement describes; no parser exists in the code, so it is the specification the
  printer is checked against.
\<close>

fun string_of_nat :: "nat \<Rightarrow> string" where
  "string_of_nat n = (if n < 10 then [char_of (48 + n)] else string_of_nat (n div 10) @ [char_of (48 + n mod 10)])"

declare string_of_nat.simps [simp del]

definition string_of_int :: "int \<Rightarrow> string" where
  "string_of_int i = (if i < 0 then CHR ''-'' # string_of_nat (nat (- i)) else string_of_nat (nat i))"

fun format_edge :: "edge \<Rightarrow> string" where
  "format_edge (u, v, w) = ''{'' @ string_of_int u @ '', '' @ string_of_int v @ '', '' @ string_of_int w @ ''}''"

definition py_isdigit :: "char \<Rightarrow> bool" where
  "py_isdigit c \<longleftrightarrow> (48 :: nat) \<le> of_char c \<and> of_char c < (58 :: nat)"

definition parse_nat :: "string \<Rightarrow> nat option" where
  "parse_nat s = (if s \<noteq> [] \<and> list_all py_isdigit s
                  then Some (foldl (\<lambda>acc c. 10 * acc + (of_char c - 48)) 0 s) else None)"

definition parse_int :: "string \<Rightarrow> int option" where
  "parse_int s = (if s \<noteq> [] \<and> hd s = CHR ''-'' then map_option (\<lambda>n. - int n) (parse_nat (tl s))
                  else map_option int (parse_nat s))"

fun split_on :: "char \<Rightarrow> string \<Rightarrow> string list" where
  "split_on c [] = [[]]"
| "split_on c (x # xs) = (if x = c then [] # split_on c xs
                          else (case split_on c xs of ys # yss \<Rightarrow> (x # ys) # yss | [] \<Rightarrow> [[x]]))"

definition parse_edge :: "string \<Rightarrow> edge option" where
  "parse_edge s =
     (if 2 \<le> length s \<and> hd s = CHR ''{'' \<and> last s = CHR ''}'' then
        (case split_on CHR '','' (butlast (tl s)) of
           [a, b, c] \<Rightarrow>
             (if b \<noteq> [] \<and> hd b = CHR '' '' \<and> c \<noteq> [] \<and> hd c = CHR '' '' then
                (case (parse_int a, parse_int (tl b), parse_int (tl c)) of
                   (Some u, Some v, Some w) \<Rightarrow> Some (u, v, w)
                 | _ \<Rightarrow> None)
              else None)
         | _ \<Rightarrow> None)
      else None)"

section \<open>Lemmas\<close>

lemma string_of_nat_digits: "string_of_nat n \<noteq> [] \<and> list_all py_isdigit (string_of_nat n)"
proof (induction n rule: string_of_nat.induct)
  case (1 n)
  have d: "py_isdigit (char_of (48 + k))" if "k < 10" for k :: nat
    using that by (simp add: py_isdigit_def of_char_of)
  have eq: "string_of_nat n = (if n < 10 then [char_of (48 + n)]
      else string_of_nat (n div 10) @ [char_of (48 + n mod 10)])" by (rule string_of_nat.simps)
  show ?case using 1 d [of n] d [of "n mod 10"] by (simp only: eq) auto
qed

lemma parse_string_of_nat: "parse_nat (string_of_nat n) = Some n"
proof (induction n rule: string_of_nat.induct)
  case (1 n)
  have v: "of_char (char_of (48 + k)) - 48 = k" if "k < 10" for k :: nat
    using that by (simp add: of_char_of)
  show ?case
  proof (cases "n < 10")
    case True
    then have "string_of_nat n = [char_of (48 + n)]" by (simp add: string_of_nat.simps)
    then show ?thesis using v [of n] True string_of_nat_digits [of n] by (simp add: parse_nat_def)
  next
    case False
    with "1.IH" have ih: "parse_nat (string_of_nat (n div 10)) = Some (n div 10)" by simp
    have "string_of_nat n = string_of_nat (n div 10) @ [char_of (48 + n mod 10)]"
      using False by (simp add: string_of_nat.simps)
    moreover have "list_all py_isdigit (string_of_nat n)" using string_of_nat_digits [of n] by blast
    ultimately show ?thesis using ih v [of "n mod 10"]
      by (auto simp: parse_nat_def split: if_splits)
  qed
qed

lemma string_of_nat_not_minus: "string_of_nat n = c # t \<Longrightarrow> py_isdigit c"
  using string_of_nat_digits [of n] by auto

lemma parse_string_of_int: "parse_int (string_of_int i) = Some i"
proof (cases "i < 0")
  case True
  then show ?thesis by (simp add: string_of_int_def parse_int_def parse_string_of_nat)
next
  case False
  obtain c t where ct: "string_of_nat (nat i) = c # t"
    using string_of_nat_digits [of "nat i"] by (cases "string_of_nat (nat i)") auto
  then have "c \<noteq> CHR ''-''" using string_of_nat_not_minus [OF ct] by (auto simp: py_isdigit_def)
  with False ct parse_string_of_nat [of "nat i"] show ?thesis
    by (simp add: string_of_int_def parse_int_def)
qed

lemma split_on_no_sep: "c \<notin> set xs \<Longrightarrow> split_on c xs = [xs]"
  by (induction xs) auto

lemma split_on_sep: "c \<notin> set xs \<Longrightarrow> split_on c (xs @ c # ys) = xs # split_on c ys"
proof (induction xs)
  case (Cons x xs)
  then show ?case by (cases "split_on c (xs @ c # ys)") auto
qed simp

lemma comma_not_in_int: "CHR '','' \<notin> set (string_of_int i)"
proof -
  have "CHR '','' \<notin> set (string_of_nat n)" for n
    using string_of_nat_digits [of n] by (auto simp: list_all_iff py_isdigit_def)
  then show ?thesis by (simp add: string_of_int_def)
qed

lemma format_edge_roundtrip: "parse_edge (format_edge e) = Some e"
proof -
  obtain u v w where e: "e = (u, v, w)" by (cases e)
  let ?body = "string_of_int u @ CHR '','' # CHR '' '' # string_of_int v @ CHR '','' # CHR '' '' # string_of_int w"
  have f: "format_edge e = CHR ''{'' # ?body @ [CHR ''}'']" by (simp add: e)
  have "split_on CHR '','' ?body = [string_of_int u, CHR '' '' # string_of_int v, CHR '' '' # string_of_int w]"
    using comma_not_in_int [of u] comma_not_in_int [of v] comma_not_in_int [of w]
    by (simp add: split_on_sep split_on_no_sep)
  then show ?thesis
    by (simp add: f parse_edge_def parse_string_of_int e butlast_append)
qed

end
