(* ===== verification/Py_Int.thy ===== *)
theory Py_Int
  imports Edge_Format
begin

text \<open>
  Python's \<open>int()\<close> on a string, base 10, as \<open>main\<close> of src/low_level_problem.py
  applies it to \<open>sys.argv[1]\<close>. CPython strips the whitespace around the literal
  (\<open>str.isspace\<close>, which on ASCII is tab, newline, vertical tab, form feed, carriage
  return, the separators 0x1c to 0x1f and space), reads one optional sign, then a
  non-empty run of decimal digits in which single underscores may separate digits.
  Anything else raises \<open>ValueError\<close>, the model's \<open>IntLiteralError\<close> carrying the
  argument. Characters are bytes here, so the Unicode digits and spaces that
  \<open>int()\<close> also accepts are outside the model.
\<close>

definition py_isspace :: "char \<Rightarrow> bool" where
  "py_isspace c \<longleftrightarrow> of_char c \<in> {9, 10, 11, 12, 13, 28, 29, 30, 31, 32 :: nat}"

definition py_strip :: "string \<Rightarrow> string" where
  "py_strip s = rev (dropWhile py_isspace (rev (dropWhile py_isspace s)))"

text \<open>The digit part: groups of digits separated by single underscores.\<close>

definition py_int_digits :: "string \<Rightarrow> nat option" where
  "py_int_digits s =
     (if list_all (\<lambda>g. g \<noteq> [] \<and> list_all py_isdigit g) (split_on CHR ''_'' s)
      then parse_nat (filter (\<lambda>c. c \<noteq> CHR ''_'') s) else None)"

definition py_int :: "string \<Rightarrow> py_error + int" where
  "py_int s =
     (let t = py_strip s;
          signed = (t \<noteq> [] \<and> (hd t = CHR ''-'' \<or> hd t = CHR ''+''));
          sg = (if t \<noteq> [] \<and> hd t = CHR ''-'' then -1 else 1);
          body = (if signed then tl t else t)
      in case py_int_digits body of
           None \<Rightarrow> Inl (IntLiteralError s)
         | Some n \<Rightarrow> Inr (sg * int n))"

section \<open>Lemmas\<close>

lemma string_of_int_chars: "c \<in> set (string_of_int i) \<Longrightarrow> py_isdigit c \<or> c = CHR ''-''"
  using string_of_nat_digits [of "nat (- i)"] string_of_nat_digits [of "nat i"]
  by (auto simp: string_of_int_def list_all_iff split: if_splits)

lemma digit_not_space: "py_isdigit c \<Longrightarrow> \<not> py_isspace c"
  by (auto simp: py_isdigit_def py_isspace_def)

lemma py_strip_pad:
  assumes "list_all py_isspace ws1" "list_all py_isspace ws2"
    and "s \<noteq> []" "\<not> py_isspace (hd s)" "\<not> py_isspace (last s)"
  shows "py_strip (ws1 @ s @ ws2) = s"
proof -
  have "dropWhile py_isspace (ws1 @ s @ ws2) = dropWhile py_isspace (s @ ws2)"
    by (rule dropWhile_append2) (use assms(1) in \<open>simp add: list_all_iff\<close>)
  also have "\<dots> = s @ ws2" using assms(3,4) by (cases s) simp_all
  finally have l: "dropWhile py_isspace (ws1 @ s @ ws2) = s @ ws2" .
  have "dropWhile py_isspace (rev ws2 @ rev s) = dropWhile py_isspace (rev s)"
    by (rule dropWhile_append2) (use assms(2) in \<open>simp add: list_all_iff\<close>)
  also have "\<dots> = rev s" using assms(3,5) by (cases "rev s") (simp_all add: last_rev [symmetric])
  finally have r: "dropWhile py_isspace (rev ws2 @ rev s) = rev s" .
  show ?thesis by (simp add: py_strip_def l r)
qed

lemma py_int_digits_nat: "py_int_digits (string_of_nat k) = Some k"
proof -
  have "CHR ''_'' \<notin> set (string_of_nat k)"
    using string_of_nat_digits [of k] by (auto simp: list_all_iff py_isdigit_def)
  moreover have "filter (\<lambda>c. c \<noteq> CHR ''_'') (string_of_nat k) = string_of_nat k"
    using calculation by (auto simp: filter_id_conv)
  ultimately show ?thesis
    using string_of_nat_digits [of k]
    by (simp add: py_int_digits_def split_on_no_sep parse_string_of_nat)
qed

lemma string_of_int_ends:
  "string_of_int i \<noteq> [] \<and> \<not> py_isspace (hd (string_of_int i)) \<and> \<not> py_isspace (last (string_of_int i))"
proof -
  have ne: "string_of_int i \<noteq> []" using string_of_nat_digits by (simp add: string_of_int_def)
  have "\<not> py_isspace c" if "c \<in> set (string_of_int i)" for c
    using string_of_int_chars [OF that] digit_not_space by (auto simp: py_isspace_def)
  with ne show ?thesis by simp
qed

lemma py_int_strip:
  assumes st: "py_strip s = string_of_int i"
  shows "py_int s = Inr i"
proof (cases "i < 0")
  case True
  then show ?thesis using st
    by (simp add: py_int_def Let_def string_of_int_def py_int_digits_nat)
next
  case False
  obtain c t where ct: "string_of_nat (nat i) = c # t"
    using string_of_nat_digits [of "nat i"] by (cases "string_of_nat (nat i)") auto
  then have "c \<noteq> CHR ''-'' \<and> c \<noteq> CHR ''+''" using string_of_nat_not_minus [OF ct] by (auto simp: py_isdigit_def)
  with False ct st py_int_digits_nat [of "nat i"] show ?thesis
    by (simp add: py_int_def Let_def string_of_int_def)
qed

lemma py_int_padded:
  assumes "list_all py_isspace ws1" "list_all py_isspace ws2"
  shows "py_int (ws1 @ string_of_int i @ ws2) = Inr i"
  using py_strip_pad [OF assms] string_of_int_ends [of i] by (intro py_int_strip) simp

lemma py_int_string_of_int: "py_int (string_of_int i) = Inr i"
  using py_int_padded [of "[]" "[]" i] by simp

lemma py_strip_subset: "set (py_strip s) \<subseteq> set s"
  by (auto simp: py_strip_def dest!: set_dropWhileD)

lemma split_on_subset: "g \<in> set (split_on c xs) \<Longrightarrow> set g \<subseteq> set xs"
proof (induction xs arbitrary: g)
  case (Cons x xs)
  show ?case
  proof (cases "x = c")
    case True
    with Cons show ?thesis by auto
  next
    case False
    show ?thesis
    proof (cases "split_on c xs")
      case Nil
      with Cons.prems False show ?thesis by simp
    next
      case (Cons h t)
      with Cons.prems False have "g = x # h \<or> g \<in> set t" by simp
      moreover have "set h \<subseteq> set xs" "\<forall>g' \<in> set t. set g' \<subseteq> set xs"
        using Cons.IH Cons by auto
      ultimately show ?thesis by auto
    qed
  qed
qed simp

lemma py_int_no_digit:
  assumes "\<forall>c \<in> set s. \<not> py_isdigit c"
  shows "py_int s = Inl (IntLiteralError s)"
proof -
  have "py_int_digits b = None" if "set b \<subseteq> set s" for b
  proof (cases "list_all (\<lambda>g. g \<noteq> [] \<and> list_all py_isdigit g) (split_on CHR ''_'' b)")
    case True
    have "split_on CHR ''_'' b \<noteq> []" by (induction b) (auto split: list.splits)
    then obtain g gs where "split_on CHR ''_'' b = g # gs" by (cases "split_on CHR ''_'' b") auto
    with True obtain c where "c \<in> set g" "py_isdigit c" by (cases g) auto
    moreover have "set g \<subseteq> set b" using split_on_subset [of g "CHR ''_''" b] \<open>split_on CHR ''_'' b = g # gs\<close> by simp
    ultimately show ?thesis using that assms by blast
  qed (simp add: py_int_digits_def)
  moreover have "set (tl (py_strip s)) \<subseteq> set s" using py_strip_subset [of s] by (cases "py_strip s") auto
  ultimately show ?thesis using py_strip_subset [of s] by (simp add: py_int_def Let_def)
qed

end
