(* ===== verification/Dataset.thy ===== *)
theory Dataset
  imports Graph_Builder
begin

text \<open>
  The reference dataset. src/edges.py defines \<open>EDGES\<close> and \<open>SOURCE\<close>;
  src/low_level_problem.py imports them and, when the import fails, falls back on its own
  copy of the same list (\<open>try: from edges import EDGES, SOURCE except ImportError\<close>).
  The flag of \<open>dataset\<close> says whether the import succeeds. The diamond of the unit
  test \<open>test_item4_impossible_on_custom_graph\<close> is the second graph the
  development evaluates.
\<close>

definition EDGES :: "edge list" where
  "EDGES = [(0, 1, 2), (0, 2, 4), (0, 4, -2), (0, 5, 1), (0, 6, 5), (2, 3, 3), (2, 4, 2),
    (3, 8, -4), (4, 3, 5), (4, 8, 1), (4, 7, 2), (5, 7, -1), (5, 8, -3), (6, 7, 6), (7, 8, 2)]"

definition SOURCE :: vertex where
  "SOURCE = 0"

text \<open>The four-vertex diamond of the test \<open>test_item4_impossible_on_custom_graph\<close>.\<close>

definition DIAMOND :: "edge list" where
  "DIAMOND = [(0, 1, 0), (0, 2, 0), (1, 3, 0), (2, 3, 0)]"

text \<open>The fallback of src/low_level_problem.py when src/edges.py cannot be imported.\<close>

definition EDGES_FALLBACK :: "edge list" where
  "EDGES_FALLBACK = [(0, 1, 2), (0, 2, 4), (0, 4, -2), (0, 5, 1), (0, 6, 5), (2, 3, 3), (2, 4, 2),
    (3, 8, -4), (4, 3, 5), (4, 8, 1), (4, 7, 2), (5, 7, -1), (5, 8, -3), (6, 7, 6), (7, 8, 2)]"

definition SOURCE_FALLBACK :: vertex where
  "SOURCE_FALLBACK = 0"

definition dataset :: "bool \<Rightarrow> edge list \<times> vertex" where
  "dataset edges_importable =
     (if edges_importable then (EDGES, SOURCE) else (EDGES_FALLBACK, SOURCE_FALLBACK))"

text \<open>
  The module-level fallback is an exact copy of src/edges.py: the graph and source
  every item runs on by default do not depend on whether src/edges.py can be imported.
\<close>

lemma dataset_independent_of_import: "dataset b = (EDGES, SOURCE)"
  by (simp add: dataset_def EDGES_FALLBACK_def EDGES_def SOURCE_FALLBACK_def SOURCE_def)

end
