(* ===== verification/Kahn_Machine.thy ===== *)
theory Kahn_Machine
  imports Topo_Sort
begin

text \<open>
  The loop of \<open>topo_order\<close> as a state machine. A state holds the three variables
  the loop updates: \<open>indeg\<close>, the deque \<open>q\<close> and \<open>order\<close>. \<open>kahn_init\<close>
  is the code before the loop. It counts the in-degrees and queues the vertices of
  in-degree 0, in node order. \<open>kahn_iter\<close> is one round of
  \<^verbatim>\<open>while q:\<close>. It pops the head, appends it to the order, and decrements
  the in-degree of each successor, queueing those that reach 0.
  \<open>kahn_reach\<close> holds the states the loop can reach. The invariant
  \<open>Topo_Sort.kahn_inv\<close> holds in every reachable state, and a state with a non-empty
  queue always has a successor, so no \<open>KeyError\<close> is raised. The function
  \<open>kahn_loop\<close> runs this machine until the queue is empty. The machine always
  reaches an empty queue, and its counters stay within the in-degrees.
\<close>

record kahn_state =
  ks_indeg :: indeg
  ks_queue :: "vertex list"
  ks_order :: "vertex list"

definition kahn_init :: "adjmap \<Rightarrow> vertex list \<Rightarrow> py_error + kahn_state" where
  "kahn_init adj nodes =
     bind_res (count_indeg adj nodes (map (\<lambda>n. (n, 0)) nodes)) (\<lambda>d.
       Inr \<lparr>ks_indeg = d, ks_queue = filter (\<lambda>n. map_of d n = Some 0) nodes, ks_order = []\<rparr>)"

inductive kahn_iter :: "adjmap \<Rightarrow> kahn_state \<Rightarrow> kahn_state \<Rightarrow> bool" for adj where
  pop: "ks_queue s = u # q \<Longrightarrow> relax (dd_get adj u) (ks_indeg s) q = Inr (d', q') \<Longrightarrow>
        kahn_iter adj s \<lparr>ks_indeg = d', ks_queue = q', ks_order = ks_order s @ [u]\<rparr>"

inductive kahn_reach :: "adjmap \<Rightarrow> vertex list \<Rightarrow> kahn_state \<Rightarrow> bool" for adj nodes where
  init: "kahn_init adj nodes = Inr s \<Longrightarrow> kahn_reach adj nodes s"
| step: "kahn_reach adj nodes s \<Longrightarrow> kahn_iter adj s s' \<Longrightarrow> kahn_reach adj nodes s'"


lemma kahn_init_inv:
  assumes "distinct nodes" and "adj_closed adj nodes"
  shows "\<exists>s. kahn_init adj nodes = Inr s \<and> kahn_inv adj nodes (ks_indeg s) (ks_queue s) (ks_order s)"
  using count_indeg_init [OF assms] by (auto simp: kahn_init_def)

lemma kahn_reach_inv:
  assumes dn: "distinct nodes" and cl: "adj_closed adj nodes" and r: "kahn_reach adj nodes s"
  shows "kahn_inv adj nodes (ks_indeg s) (ks_queue s) (ks_order s)
     \<and> (ks_queue s \<noteq> [] \<longrightarrow> (\<exists>s'. kahn_iter adj s s'))"
proof -
  have inv: "kahn_inv adj nodes (ks_indeg s) (ks_queue s) (ks_order s)"
    using r
  proof (induction rule: kahn_reach.induct)
    case (init s)
    with kahn_init_inv [OF dn cl] show ?case by auto
  next
    case (step s s')
    from step.hyps(2) show ?case
    proof (cases rule: kahn_iter.cases)
      case (pop u q d' q')
      from kahn_step [of adj nodes "ks_indeg s" u q "ks_order s"] step.IH pop cl
      show ?thesis by auto
    qed
  qed
  moreover have "ks_queue s \<noteq> [] \<longrightarrow> (\<exists>s'. kahn_iter adj s s')"
  proof
    assume "ks_queue s \<noteq> []"
    then obtain u q where q: "ks_queue s = u # q" by (cases "ks_queue s") auto
    from kahn_step [of adj nodes "ks_indeg s" u q "ks_order s"] inv q cl
    obtain d' q' where "relax (dd_get adj u) (ks_indeg s) q = Inr (d', q')" by auto
    with q show "\<exists>s'. kahn_iter adj s s'" by (blast intro: kahn_iter.pop)
  qed
  ultimately show ?thesis ..
qed

text \<open>
  C22. On a graph whose successors are all vertices, every state the loop of
  \<open>topo_order\<close> reaches satisfies the invariant of Kahn's algorithm, which has four
  parts. The order and the queue are distinct vertices. \<open>indeg[v]\<close> counts the
  edges into \<open>v\<close> from vertices not yet ordered. The queue holds exactly the unordered
  vertices whose count is 0. Every ordered vertex comes after all its predecessors.
  Also, while the queue is non-empty the next round runs without error.
\<close>

theorem kahn_reach_invariant:
  assumes dn: "distinct nodes" and cl: "adj_closed adj nodes" and r: "kahn_reach adj nodes s"
  shows "kahn_inv adj nodes (ks_indeg s) (ks_queue s) (ks_order s)
     \<and> (ks_queue s \<noteq> [] \<longrightarrow> (\<exists>s'. kahn_iter adj s s'))"
  using assms by (rule kahn_reach_inv)

lemma kahn_loop_run:
  "kahn_loop adj d q order = Inr res \<Longrightarrow>
     \<exists>t. (kahn_iter adj)\<^sup>*\<^sup>* \<lparr>ks_indeg = d, ks_queue = q, ks_order = order\<rparr> t
        \<and> ks_queue t = [] \<and> ks_order t = res"
proof (induction adj d q order rule: kahn_loop.induct)
  case (1 adj d order)
  then show ?case by auto
next
  case (2 adj d u q order)
  from "2.prems" obtain d' q' where r: "relax (dd_get adj u) d q = Inr (d', q')"
    and k: "kahn_loop adj d' q' (order @ [u]) = Inr res"
    by (auto split: sum.splits)
  from "2.IH" [OF r refl k] obtain t where
    run: "(kahn_iter adj)\<^sup>*\<^sup>* \<lparr>ks_indeg = d', ks_queue = q', ks_order = order @ [u]\<rparr> t"
    and t: "ks_queue t = []" "ks_order t = res" by blast
  have "kahn_iter adj \<lparr>ks_indeg = d, ks_queue = u # q, ks_order = order\<rparr>
          \<lparr>ks_indeg = d', ks_queue = q', ks_order = order @ [u]\<rparr>"
    using kahn_iter.pop [where s = "\<lparr>ks_indeg = d, ks_queue = u # q, ks_order = order\<rparr>" and u = u and q = q and d' = d' and q' = q' and adj = adj] r by simp
  with run t show ?case by (blast intro: converse_rtranclp_into_rtranclp)
qed

text \<open>
  C23. The loop always ends. From every reachable state of a graph whose successors are
  all vertices, the machine reaches a state with an empty queue: \<^verbatim>\<open>while q\<close>
  stops, on cyclic graphs too.
\<close>

theorem kahn_reach_terminates:
  assumes dn: "distinct nodes" and cl: "adj_closed adj nodes" and r: "kahn_reach adj nodes s"
  shows "\<exists>t. (kahn_iter adj)\<^sup>*\<^sup>* s t \<and> ks_queue t = []"
proof -
  from kahn_reach_inv [OF dn cl r] have inv: "kahn_inv adj nodes (ks_indeg s) (ks_queue s) (ks_order s)" by blast
  from kahn_loop_ok [OF inv cl] obtain res where
    "kahn_loop adj (ks_indeg s) (ks_queue s) (ks_order s) = Inr res" by blast
  from kahn_loop_run [OF this] have "\<exists>t. (kahn_iter adj)\<^sup>*\<^sup>*
      \<lparr>ks_indeg = ks_indeg s, ks_queue = ks_queue s, ks_order = ks_order s\<rparr> t \<and> ks_queue t = []" by blast
  moreover have "\<lparr>ks_indeg = ks_indeg s, ks_queue = ks_queue s, ks_order = ks_order s\<rparr> = s" by (cases s) simp
  ultimately show ?thesis by simp
qed

lemma pending_le_indegree: "finite (set nodes) \<Longrightarrow> pending adj nodes P v \<le> pending adj nodes {} v"
  unfolding pending_def by (rule sum_mono2) auto

lemma built_pending_all: "pending (g_adj (build_graph es)) (g_nodes (build_graph es)) {} v = length (preds es v)"
proof -
  have "set (g_nodes (build_graph es)) - {} = endpoints es" using build_graph_nodes [of es] by simp
  then have "pending (g_adj (build_graph es)) (g_nodes (build_graph es)) {} v
      = (\<Sum>u \<in> endpoints es. count_list (map fst (preds es v)) u)"
    by (simp only: pending_def built_out_count)
  also have "\<dots> = length (map fst (preds es v))"
    using preds_endpoints [of es v] by (intro sum_count_set) auto
  finally show ?thesis by simp
qed

text \<open>
  C24. The counters of \<open>indeg\<close> are Python ints that the loop decrements. In every
  reachable state of a built graph, the counter of each vertex lies between 0 and the
  vertex's number of in-edges, so \<^verbatim>\<open>indeg[v] -= 1\<close> never goes below 0.
\<close>

theorem kahn_reach_indeg_bounds:
  assumes r: "kahn_reach (g_adj (build_graph es)) (g_nodes (build_graph es)) s" and v: "v \<in> endpoints es"
  shows "\<exists>k. map_of (ks_indeg s) v = Some k \<and> 0 \<le> k \<and> k \<le> int (length (preds es v))"
proof -
  have dn: "distinct (g_nodes (build_graph es))" using build_graph_nodes [of es] by blast
  from kahn_reach_inv [OF dn built_adj_closed r] v build_graph_nodes [of es]
  have "map_of (ks_indeg s) v = Some (int (pending (g_adj (build_graph es)) (g_nodes (build_graph es)) (set (ks_order s)) v))"
    by (auto simp: kahn_inv_def)
  moreover have "pending (g_adj (build_graph es)) (g_nodes (build_graph es)) (set (ks_order s)) v \<le> length (preds es v)"
    using pending_le_indegree [where nodes = "g_nodes (build_graph es)" and adj = "g_adj (build_graph es)"
        and P = "set (ks_order s)" and v = v] built_pending_all [of es v] by simp
  ultimately show ?thesis by auto
qed

end
