(* ===== verification/Items.thy ===== *)
theory Items
  imports Queries Insertion_Planner Py_Int Dataset Kahn_Machine
begin

text \<open>
  The entry points of src/low_level_problem.py: \<open>solve_item3\<close> to \<open>solve_item6\<close>
  and the driver \<open>main\<close>. Items 3, 4 and 5 run the planner with the strict policy,
  item 6 with the permissive one; each returns the planner's result. Their console
  output is not modelled, except the edge lines of item 5, which are the input format
  of the problem (Edge_Format). \<open>main\<close> takes the argument vector and the flag
  of \<open>Dataset.dataset\<close>, converts \<open>sys.argv[1]\<close> with Python's \<open>int()\<close>
  (Py_Int; option 1 without an argument), and either raises the \<open>ValueError\<close> of the
  conversion or returns the run it selects, a value of \<open>driver_run\<close>. The theory ends with the contracts of items
  1, 2 and 5, which compose the components.
\<close>

definition solve_item3 :: "edge list \<Rightarrow> vertex \<Rightarrow> py_error + insertion_result" where
  "solve_item3 edges source = propose_V_prime_insertion edges source None False"

definition solve_item4 :: "edge list \<Rightarrow> vertex \<Rightarrow> py_error + insertion_result" where
  "solve_item4 edges source = propose_V_prime_insertion edges source None False"

definition solve_item5 :: "edge list \<Rightarrow> vertex \<Rightarrow> py_error + insertion_result" where
  "solve_item5 edges source = propose_V_prime_insertion edges source None False"

text \<open>The lines \<^verbatim>\<open>print(f"{{{u}, {v}, {w}}}")\<close> of item 5 for a proposal.\<close>

definition item5_edge_lines :: "insertion_result \<Rightarrow> string list" where
  "item5_edge_lines r = (case r of Impossible _ \<Rightarrow> [] | Possible p \<Rightarrow> map format_edge (pr_insertion_edges p))"

definition solve_item6 :: "edge list \<Rightarrow> vertex \<Rightarrow> py_error + insertion_result" where
  "solve_item6 edges source = propose_V_prime_insertion edges source None True"

datatype driver_run =
    Run_item1 "py_error + item1_result"
  | Run_item2 "py_error + item1_result \<times> path_rec list option"
  | Run_item3 "py_error + insertion_result"
  | Run_item4 "py_error + insertion_result"
  | Run_item5 "py_error + insertion_result"
  | Run_item6 "py_error + insertion_result"
  | Invalid_option

definition main_dispatch :: "int \<Rightarrow> edge list \<Rightarrow> vertex \<Rightarrow> driver_run" where
  "main_dispatch option edges source =
     (if option = 1 then Run_item1 (solve_item1 edges source)
      else if option = 2 then Run_item2 (solve_item2 edges source)
      else if option = 3 then Run_item3 (solve_item3 edges source)
      else if option = 4 then Run_item4 (solve_item4 edges source)
      else if option = 5 then Run_item5 (solve_item5 edges source)
      else if option = 6 then Run_item6 (solve_item6 edges source)
      else Invalid_option)"

text \<open>\<^verbatim>\<open>option = int(sys.argv[1]) if len(sys.argv) > 1 else 1\<close>, then the dispatch.\<close>

definition main :: "bool \<Rightarrow> string list \<Rightarrow> py_error + driver_run" where
  "main edges_importable argv =
     bind_res (if 1 < length argv then py_int (argv ! 1) else Inr 1) (\<lambda>option.
       Inr (main_dispatch option (fst (dataset edges_importable)) (snd (dataset edges_importable))))"

section \<open>Lemmas\<close>

lemma solve_item1_recount:
  "solve_item1 es s = map_sum id (\<lambda>(w, V). \<lparr>it1_V = V, it1_ways = w, it1_graph = build_graph es\<rparr>) (recount es s)"
  by (simp add: solve_item1_def recount_def Let_def bind_res_def split: sum.splits)

lemma recount_no_edges: "recount [] s = Inl EmptySequence"
  by (simp add: recount_def build_graph_Nil topo_order_def count_paths_from_source_def dict_max_key_def)

lemma propose_Possible_edges:
  "propose_V_prime_insertion es s vp a = Inr (Possible p) \<Longrightarrow>
     pr_insertion_edges p = map (\<lambda>u. (u, pr_V_prime p, 0)) (pr_picked p)"
  by (auto simp: propose_V_prime_insertion_def Let_def bind_res_def split: sum.splits if_splits)

section \<open>The contracts of the items\<close>

text \<open>
  C17. Item 1: when it returns, the reported vertex is a vertex of the graph, the table
  has a key for the source and every vertex, no vertex has more paths than the reported
  one, and every smaller vertex has strictly fewer: \<open>max\<close> over the sorted vertex
  list keeps the first maximum, so ties go to the smallest vertex.
\<close>

theorem solve_item1_most_reachable:
  assumes "solve_item1 es s = Inr r"
  shows "it1_graph r = build_graph es \<and> it1_V r \<in> endpoints es
     \<and> dom (map_of (it1_ways r)) = insert s (endpoints es)
     \<and> (\<forall>v \<in> endpoints es. count_of (it1_ways r) v \<le> count_of (it1_ways r) (it1_V r))
     \<and> (\<forall>v \<in> endpoints es. v < it1_V r \<longrightarrow> count_of (it1_ways r) v < count_of (it1_ways r) (it1_V r))"
proof -
  from assms obtain w V where rc: "recount es s = Inr (w, V)"
    and r: "r = \<lparr>it1_V = V, it1_ways = w, it1_graph = build_graph es\<rparr>"
    by (cases "recount es s") (auto simp: solve_item1_recount)
  from rc obtain order where "dict_max_key w (g_nodes (build_graph es)) = Inr V"
    unfolding recount_Inr by blast
  with build_graph_nodes [of es]
  have first: "\<forall>v \<in> endpoints es. v < V \<longrightarrow> count_of w v < count_of w V"
    by (auto intro: dict_max_key_first)
  from recount_facts [OF rc] have "dom (map_of w) = insert s (endpoints es)" and "V \<in> endpoints es"
    and "\<forall>y \<in> endpoints es. count_of w y \<le> count_of w V" by blast+
  with first show ?thesis unfolding r by simp
qed

text \<open>
  C18. Item 1 raises the cycle error exactly on cyclic edge lists and \<open>ValueError\<close>
  of \<open>max()\<close> exactly on the empty edge list, and it never raises \<open>KeyError\<close>.
\<close>

theorem solve_item1_errors:
  "(solve_item1 es s = Inl NotADag \<longleftrightarrow> \<not> acyclic (edge_rel es))
   \<and> (solve_item1 es s = Inl EmptySequence \<longleftrightarrow> es = [])
   \<and> (\<forall>k. solve_item1 es s \<noteq> Inl (KeyError k))"
proof (cases "acyclic (edge_rel es)")
  case True
  show ?thesis
  proof (cases "es = []")
    case True
    then show ?thesis by (simp add: solve_item1_recount recount_no_edges acyclic_def)
  next
    case False
    from recount_total [OF False \<open>acyclic (edge_rel es)\<close>, of s] obtain w V where "recount es s = Inr (w, V)"
      by blast
    with False True show ?thesis by (simp add: solve_item1_recount)
  qed
next
  case False
  then have "es \<noteq> []" by (cases es) (auto simp: acyclic_def)
  with False show ?thesis by (simp add: solve_item1_recount recount_cyclic)
qed

text \<open>
  C19. Item 2: whenever item 1 returns, the enumeration with \<open>length nodes + 1\<close>
  units of fuel returns, and item 2 reports its records as a permutation sorted by
  decreasing cost that keeps records of equal cost in enumeration order (Python's stable
  \<open>sorted(..., reverse=True)\<close>); there are \<open>ways[V]\<close> of them, each a walk
  from the source to \<open>V\<close> with the recorded cost.
\<close>

theorem solve_item2_contract:
  assumes "solve_item1 es s = Inr r"
  shows "\<exists>ps0 ps. enumerate_paths_dfs (Suc (card (endpoints es))) (g_adj (build_graph es)) s (it1_V r) = Some ps0
     \<and> solve_item2 es s = Inr (r, Some ps)
     \<and> mset ps = mset ps0 \<and> sorted (map (\<lambda>pc. - snd pc) ps)
     \<and> (\<forall>c. filter (\<lambda>pc. snd pc = c) ps = filter (\<lambda>pc. snd pc = c) ps0)
     \<and> length ps = count_of (it1_ways r) (it1_V r)
     \<and> (\<forall>(q, c) \<in> set ps. \<exists>p. is_walk es s p (it1_V r) \<and> q = walk_vertices s p \<and> c = walk_cost p)"
proof -
  from assms obtain w V where rc: "recount es s = Inr (w, V)"
    and r: "r = \<lparr>it1_V = V, it1_ways = w, it1_graph = build_graph es\<rparr>"
    by (cases "recount es s") (auto simp: solve_item1_recount)
  from rc obtain order where
    topo: "topo_order (g_adj (build_graph es)) (g_nodes (build_graph es)) = Inr order"
    and cnt: "count_paths_from_source (g_adj (build_graph es)) (g_nodes (build_graph es)) order s = Inr w"
    unfolding recount_Inr by blast
  from recount_facts [OF rc] have ac: "acyclic (edge_rel es)" and Vv: "V \<in> endpoints es" by blast+
  have len: "length (g_nodes (build_graph es)) = card (endpoints es)"
    using build_graph_nodes [of es] distinct_card [of "g_nodes (build_graph es)"] by simp
  from enumerate_paths_enough [OF ac, of "Suc (card (endpoints es))" s V] obtain ps0 where
    e: "enumerate_paths_dfs (Suc (card (endpoints es))) (g_adj (build_graph es)) s V = Some ps0"
    by auto
  have s2: "solve_item2 es s = Inr (r, Some (rank_paths ps0))"
    using assms e len r by (simp add: solve_item2_def Let_def)
  have l0: "length ps0 = count_of w V" by (rule enumerate_count_built [OF topo cnt Vv e])
  have walks: "\<forall>(q, c) \<in> set ps0. \<exists>p. is_walk es s p V \<and> q = walk_vertices s p \<and> c = walk_cost p"
    using enumerate_paths_walks [OF e] by blast
  from rank_paths_props [of ps0] have m: "mset (rank_paths ps0) = mset ps0" by blast
  then have "length (rank_paths ps0) = length ps0" "set (rank_paths ps0) = set ps0"
    by (metis size_mset, metis set_mset_mset)
  with rank_paths_props [of ps0] e s2 l0 walks show ?thesis unfolding r by auto
qed

text \<open>
  C20. The lines item 5 prints for a proposal read back, in the input format
  \<open>{u, v, w}\<close>, as exactly one edge \<open>(u, V', 0)\<close> per picked parent, in the
  order of the picks.
\<close>

theorem item5_lines_roundtrip:
  assumes "solve_item5 es s = Inr (Possible p)"
  shows "map parse_edge (item5_edge_lines (Possible p)) = map (\<lambda>u. Some (u, pr_V_prime p, 0)) (pr_picked p)"
proof -
  from assms have "pr_insertion_edges p = map (\<lambda>u. (u, pr_V_prime p, 0)) (pr_picked p)"
    unfolding solve_item5_def by (rule propose_Possible_edges)
  then show ?thesis by (simp add: item5_edge_lines_def format_edge_roundtrip del: format_edge.simps)
qed

text \<open>
  C26. The counter and the Analyzer agree. On a built DAG, a vertex (or the source) has a
  positive count exactly when the traversal from the source reaches it. Vertices the
  source does not reach keep their count 0, as the specification says.
\<close>

theorem count_positive_iff_reachable:
  assumes topo: "topo_order (g_adj (build_graph es)) (g_nodes (build_graph es)) = Inr order"
    and cnt: "count_paths_from_source (g_adj (build_graph es)) (g_nodes (build_graph es)) order s = Inr ways"
    and v: "v \<in> insert s (endpoints es)"
  shows "0 < count_of ways v \<longleftrightarrow> v \<in> reachable_from_source (g_adj (build_graph es)) s"
proof -
  have ac: "acyclic (edge_rel es)" using topo built_topo_order_NotADag_iff [of es] by auto
  from count_paths_built [OF topo, of s] cnt have
    r: "\<forall>v \<in> insert s (endpoints es). count_of ways v =
           (if v = s then 1 else 0) + sum_list (map (\<lambda>(u, _). count_of ways u) (preds es v))"
    by auto
  have reach: "v \<in> reachable_from_source (g_adj (build_graph es)) s \<longleftrightarrow> (s, v) \<in> (edge_rel es)\<^sup>*"
    by (simp add: reachable_from_source_rel built_adj_rel)
  show ?thesis
  proof
    assume "0 < count_of ways v"
    from recurrence_pos_reach [OF ac _ r v this] reach show "v \<in> reachable_from_source (g_adj (build_graph es)) s"
      by blast
  next
    assume "v \<in> reachable_from_source (g_adj (build_graph es)) s"
    with reach have "(s, v) \<in> (edge_rel es)\<^sup>*" by blast
    from recurrence_reach_pos [OF r subset_refl this] show "0 < count_of ways v" .
  qed
qed

lemma main_option:
  "1 < length argv \<Longrightarrow> py_int (argv ! 1) = Inr k \<Longrightarrow>
     main imp argv = Inr (main_dispatch k (fst (dataset imp)) (snd (dataset imp)))"
  "main imp [p] = Inr (main_dispatch 1 (fst (dataset imp)) (snd (dataset imp)))"
  by (simp_all add: main_def bind_res_def)

text \<open>
  C29. The driver's selection: without an argument \<open>main\<close> runs item 1; with an
  argument that is \<open>str(k)\<close> padded by whitespace it runs \<open>main_dispatch k\<close> on the
  imported dataset, for every integer \<open>k\<close> (items 1 to 6, the invalid-option branch
  otherwise).
\<close>

theorem main_selects:
  assumes "list_all py_isspace ws1" and "list_all py_isspace ws2"
  shows "main imp [p] = Inr (main_dispatch 1 (fst (dataset imp)) (snd (dataset imp)))
    \<and> main imp (p # (ws1 @ string_of_int k @ ws2) # rest)
        = Inr (main_dispatch k (fst (dataset imp)) (snd (dataset imp)))"
  using main_option(1) [of "p # (ws1 @ string_of_int k @ ws2) # rest" k imp] py_int_padded [OF assms, of k]
    main_option(2) [of imp p]
  by simp

text \<open>
  C30. The driver's error path: an argument without a decimal digit is not an integer
  literal, and \<open>main\<close> raises the \<open>ValueError\<close> of \<open>int()\<close> before any item
  runs; the dispatch is never reached.
\<close>

theorem main_invalid_literal:
  assumes "\<forall>c \<in> set a. \<not> py_isdigit c"
  shows "main imp (p # a # rest) = Inl (IntLiteralError a)"
  using py_int_no_digit [OF assms] by (simp add: main_def bind_res_def)

end
