(* ===== verification/Tests.thy ===== *)
theory Tests
  imports Items
begin

text \<open>
  The unit tests of src/tests/tests.py, run against the model. The fixture
  \<open>setUp\<close> builds the graph of the statement, sorts it and counts its paths;
  each \<open>test_...\<close> method is a function of the fixture that returns \<open>Inr True\<close>
  when all its assertions hold, \<open>Inr False\<close> when one fails and \<open>Inl\<close> when the
  code under test raises. \<open>run_test\<close> composes fixture and test as unittest does:
  a test passes when neither raises and every assertion holds. A \<open>skipTest\<close>
  branch counts as passing, and the \<open>assertIn\<close> checks on the Spanish
  \<open>reason\<close> message are not modelled, since the model's reports carry no text.
  The enumeration of items 2 and 7 gets the fuel of the queries (one more than
  the number of vertices).
\<close>


record test_fixture =
  tf_graph :: graph
  tf_topo :: "vertex list"
  tf_ways :: ways

text \<open>Python's \<open>==\<close> on two dicts: the same keys, each with the same value.\<close>

definition dict_eq :: "('k \<times> 'v) list \<Rightarrow> ('k \<times> 'v) list \<Rightarrow> bool" where
  "dict_eq d e = (set (map fst d) = set (map fst e) \<and> list_all (\<lambda>(k, v). map_of d k = Some v) e)"

definition setUp :: "py_error + test_fixture" where
  "setUp =
     (let g = build_graph EDGES in
      bind_res (topo_order (g_adj g) (g_nodes g)) (\<lambda>topo.
      bind_res (count_paths_from_source (g_adj g) (g_nodes g) topo SOURCE) (\<lambda>ways.
      Inr \<lparr>tf_graph = g, tf_topo = topo, tf_ways = ways\<rparr>)))"

definition run_test :: "(test_fixture \<Rightarrow> py_error + bool) \<Rightarrow> bool" where
  "run_test t = (case bind_res setUp t of Inr True \<Rightarrow> True | _ \<Rightarrow> False)"

definition test_item1_most_reachable :: "test_fixture \<Rightarrow> py_error + bool" where
  "test_item1_most_reachable f =
     bind_res (dict_max_key (tf_ways f) (g_nodes (tf_graph f))) (\<lambda>V.
       Inr (V = 8 \<and> dict_eq (tf_ways f) [(0, 1), (1, 1), (2, 1), (3, 3), (4, 2), (5, 1), (6, 1), (7, 4), (8, 10)]))"

definition test_topological_order_is_valid :: "test_fixture \<Rightarrow> py_error + bool" where
  "test_topological_order_is_valid f =
     Inr (list_all (\<lambda>(u, v, _). position (tf_topo f) u < position (tf_topo f) v) EDGES)"

definition test_item2_paths_sorted_by_cost :: "test_fixture \<Rightarrow> py_error + bool" where
  "test_item2_paths_sorted_by_cost f =
     bind_res (dict_max_key (tf_ways f) (g_nodes (tf_graph f))) (\<lambda>V.
     bind_res (dict_get (tf_ways f) V) (\<lambda>wV.
       case enumerate_paths_dfs (Suc (length (g_nodes (tf_graph f)))) (g_adj (tf_graph f)) SOURCE V of
         None \<Rightarrow> Inl NotADag
       | Some paths \<Rightarrow>
           (let ps = rank_paths paths; costs = map snd ps in
            Inr (length paths = wV \<and> costs = rev (sort costs) \<and> ps \<noteq> []
                 \<and> fst (hd ps) = [0, 6, 7, 8] \<and> snd (hd ps) = 13
                 \<and> fst (last ps) = [0, 5, 8] \<and> snd (last ps) = -2))))"

definition test_item3_current_impl_marks_impossible :: "test_fixture \<Rightarrow> py_error + bool" where
  "test_item3_current_impl_marks_impossible f =
     bind_res (propose_V_prime_insertion EDGES SOURCE None False) (\<lambda>res.
       Inr (case res of
              Possible _ \<Rightarrow> True
            | Impossible r \<Rightarrow> inf_V r = 8 \<and> inf_waysV r = 10 \<and> set (inf_allowed r) = {0, 1, 2, 6}))"

definition test_feasibility_if_V_allowed_as_parent :: "test_fixture \<Rightarrow> py_error + bool" where
  "test_feasibility_if_V_allowed_as_parent f =
     bind_res (dict_max_key (tf_ways f) (g_nodes (tf_graph f))) (\<lambda>V.
     bind_res (py_max_key id (g_nodes (tf_graph f))) (\<lambda>m.
     let vprime = m + 1; g2 = build_graph (EDGES @ [(V, vprime, 0), (SOURCE, vprime, 0)]) in
     bind_res (topo_order (g_adj g2) (g_nodes g2)) (\<lambda>order2.
     bind_res (count_paths_from_source (g_adj g2) (g_nodes g2) order2 SOURCE) (\<lambda>ways2.
     bind_res (dict_get ways2 vprime) (\<lambda>a.
     bind_res (dict_get (tf_ways f) V) (\<lambda>b. Inr (b < a)))))))"

definition test_item4_impossible_on_custom_graph :: "test_fixture \<Rightarrow> py_error + bool" where
  "test_item4_impossible_on_custom_graph f =
     bind_res (propose_V_prime_insertion DIAMOND 0 None False) (\<lambda>res.
       Inr (case res of Possible _ \<Rightarrow> False | Impossible _ \<Rightarrow> True))"

definition test_num_paths_dp_matches_dfs_to_V :: "test_fixture \<Rightarrow> py_error + bool" where
  "test_num_paths_dp_matches_dfs_to_V f =
     bind_res (dict_max_key (tf_ways f) (g_nodes (tf_graph f))) (\<lambda>V.
     bind_res (dict_get (tf_ways f) V) (\<lambda>wV.
       case enumerate_paths_dfs (Suc (length (g_nodes (tf_graph f)))) (g_adj (tf_graph f)) SOURCE V of
         None \<Rightarrow> Inl NotADag
       | Some paths \<Rightarrow> Inr (length paths = wV)))"

lemma dict_eq_map_of:
  assumes "distinct (map fst e)"
  shows "dict_eq d e \<longleftrightarrow> map_of d = map_of e"
proof
  assume h: "dict_eq d e"
  show "map_of d = map_of e"
  proof
    fix k
    show "map_of d k = map_of e k"
    proof (cases "k \<in> set (map fst e)")
      case True
      then obtain v where kv: "(k, v) \<in> set e" by auto
      with assms have "map_of e k = Some v" by simp
      moreover from h kv have "map_of d k = Some v" by (auto simp: dict_eq_def list_all_iff)
      ultimately show ?thesis by simp
    next
      case False
      with h have "k \<notin> fst ` set d" by (simp add: dict_eq_def)
      with False show ?thesis by (metis image_set map_of_eq_None_iff)
    qed
  qed
next
  assume "map_of d = map_of e"
  then have "dom (map_of d) = dom (map_of e)" by simp
  then have "fst ` set d = fst ` set e" by (simp add: dom_map_of_conv_image_fst)
  with \<open>map_of d = map_of e\<close> assms show "dict_eq d e"
    by (simp add: dict_eq_def list_all_iff)
qed

end
