(* ===== verification/Path_Spec.thy ===== *)
theory Path_Spec
  imports Queries
begin

text \<open>
  The abstract specification of the enumerator and the counter of
  src/low_level_problem.py: the paths from the source to a vertex are the walks of the
  edge list (\<open>is_walk\<close>, one edge of the list per step, parallel edges counted
  apart). \<open>dfs_complete\<close> shows by computation induction over \<open>dfs\<close> and
  \<open>dfs_edges\<close> that, when the edge list has no repeated triple, the records the
  recursion returns are the images of a duplicate-free list of exactly the walks
  that reach the target only at their end. With C16 (the enumeration returns as many
  records as the counter's table holds) this makes \<open>ways[t]\<close> the number of walks
  from the source to \<open>t\<close>, the quantity the specification names.
\<close>

lemma distinct_succs: "distinct es \<Longrightarrow> distinct (succs es u)"
  unfolding succs_def
  by (rule distinct_map [THEN iffD2]) (auto intro: inj_onI)

lemma succs_iff: "(x, w) \<in> set (succs es u) \<longleftrightarrow> (u, x, w) \<in> set es"
  by (force simp: succs_def)

lemma walk_from_Cons:
  "u \<noteq> t \<Longrightarrow>
   {p. is_walk es u p t \<and> t \<notin> set (butlast (walk_vertices u p))} =
   {p. \<exists>x w p'. p = (u, x, w) # p' \<and> (x, w) \<in> set (succs es u) \<and> is_walk es x p' t
        \<and> t \<notin> set (butlast (walk_vertices x p'))}"
proof (intro set_eqI iffI)
  fix p assume ut: "u \<noteq> t" and "p \<in> {p. is_walk es u p t \<and> t \<notin> set (butlast (walk_vertices u p))}"
  then show "p \<in> {p. \<exists>x w p'. p = (u, x, w) # p' \<and> (x, w) \<in> set (succs es u) \<and> is_walk es x p' t
        \<and> t \<notin> set (butlast (walk_vertices x p'))}"
    by (cases p) (auto simp: walk_vertices_def succs_iff)
next
  fix p assume ut: "u \<noteq> t" and "p \<in> {p. \<exists>x w p'. p = (u, x, w) # p' \<and> (x, w) \<in> set (succs es u) \<and> is_walk es x p' t
        \<and> t \<notin> set (butlast (walk_vertices x p'))}"
  then show "p \<in> {p. is_walk es u p t \<and> t \<notin> set (butlast (walk_vertices u p))}"
    by (auto simp: walk_vertices_def succs_iff)
qed

lemma dfs_complete:
  "\<forall>u. dd_get adj u = succs es u \<Longrightarrow> distinct es \<Longrightarrow>
     dfs n adj t u acc path = Some ps \<Longrightarrow>
     \<exists>P. ps = map (\<lambda>p. (path @ tl (walk_vertices u p), acc + walk_cost p)) P \<and> distinct P
       \<and> set P = {p. is_walk es u p t \<and> t \<notin> set (butlast (walk_vertices u p))}"
  "\<forall>u. dd_get adj u = succs es u \<Longrightarrow> distinct es \<Longrightarrow>
     dfs_edges n adj t vs acc path = Some ps \<Longrightarrow> distinct vs \<Longrightarrow>
     \<exists>P. ps = map (\<lambda>p. (path @ tl (walk_vertices u p), acc + walk_cost p)) P \<and> distinct P
       \<and> set P = {p. \<exists>x w p'. p = (u, x, w) # p' \<and> (x, w) \<in> set vs \<and> is_walk es x p' t
                   \<and> t \<notin> set (butlast (walk_vertices x p'))}"
proof (induction n adj t u acc path and n adj t vs acc path arbitrary: ps and ps u
    rule: dfs_dfs_edges.induct)
  case (2 n adj t u acc path)
  show ?case
  proof (cases "u = t")
    case True
    have "{p. is_walk es t p t \<and> t \<notin> set (butlast (walk_vertices t p))} = {[]}"
      by (auto simp: walk_vertices_def elim: is_walk.elims)
    with True "2.prems" show ?thesis
      by (intro exI [of _ "[[]]"]) (auto simp: walk_vertices_def walk_cost_def)
  next
    case False
    with "2.prems" have r: "dfs_edges n adj t (dd_get adj u) acc path = Some ps" by simp
    have a: "dd_get adj u = succs es u" using "2.prems"(1) by blast
    from "2.IH" [OF False "2.prems"(1,2) r] distinct_succs [OF "2.prems"(2), of u]
    show ?thesis unfolding a walk_from_Cons [OF False, of es] by blast
  qed
next
  case (3 n adj t acc path)
  then show ?case by (intro exI [of _ "[]"]) simp
next
  case (4 n adj t v w vs acc path)
  from "4.prems"(3) obtain ps1 ps2 where
    r1: "dfs n adj t v (acc + w) (path @ [v]) = Some ps1"
    and r2: "dfs_edges n adj t vs acc path = Some ps2" and ps: "ps = ps1 @ ps2"
    by (auto split: option.splits)
  from "4.IH"(1) [OF "4.prems"(1,2) r1] obtain P1 where
    p1: "ps1 = map (\<lambda>p. ((path @ [v]) @ tl (walk_vertices v p), acc + w + walk_cost p)) P1"
    and d1: "distinct P1" and s1: "set P1 = {p. is_walk es v p t \<and> t \<notin> set (butlast (walk_vertices v p))}"
    by blast
  from "4.prems"(4) have dvs: "distinct vs" by simp
  from "4.IH"(2) [OF r1 "4.prems"(1,2) r2 dvs, of u] obtain P2 where
    p2: "ps2 = map (\<lambda>p. (path @ tl (walk_vertices u p), acc + walk_cost p)) P2"
    and d2: "distinct P2" and s2: "set P2 = {p. \<exists>x w p'. p = (u, x, w) # p' \<and> (x, w) \<in> set vs
         \<and> is_walk es x p' t \<and> t \<notin> set (butlast (walk_vertices x p'))}"
    by blast
  let ?P = "map (\<lambda>p. (u, v, w) # p) P1 @ P2"
  have "ps = map (\<lambda>p. (path @ tl (walk_vertices u p), acc + walk_cost p)) ?P"
    using ps p1 p2 by (simp add: walk_Cons walk_vertices_def add.assoc)
  moreover have "distinct ?P"
    using d1 d2 s2 "4.prems"(4) by (auto simp: distinct_map inj_on_def)
  moreover have "set ?P = {p. \<exists>x w' p'. p = (u, x, w') # p' \<and> (x, w') \<in> set ((v, w) # vs)
         \<and> is_walk es x p' t \<and> t \<notin> set (butlast (walk_vertices x p'))}"
    using s1 s2 by auto
  ultimately show ?case by blast
qed simp


lemma walk_last: "is_walk es u p t \<Longrightarrow> last (walk_vertices u p) = t"
  by (induction p arbitrary: u) (auto simp: walk_vertices_def)

lemma enumerate_walks_exact:
  assumes d: "distinct es" and en: "enumerate_paths_dfs fuel (g_adj (build_graph es)) s t = Some ps"
  shows "\<exists>P. ps = map (\<lambda>p. (walk_vertices s p, walk_cost p)) P \<and> distinct P
           \<and> set P = {p. is_walk es s p t \<and> t \<notin> set (butlast (walk_vertices s p))}"
proof -
  have a: "\<forall>u. dd_get (g_adj (build_graph es)) u = succs es u" by (simp add: build_graph_adj)
  from dfs_complete(1) [OF a d en [unfolded enumerate_paths_dfs_def]] obtain P where
    "ps = map (\<lambda>p. ([s] @ tl (walk_vertices s p), 0 + walk_cost p)) P" "distinct P"
    "set P = {p. is_walk es s p t \<and> t \<notin> set (butlast (walk_vertices s p))}" by blast
  then show ?thesis by (intro exI [of _ P]) (simp add: walk_vertices_def)
qed

lemma acyclic_walks_arrive:
  assumes "acyclic (edge_rel es)"
  shows "{p. is_walk es s p t \<and> t \<notin> set (butlast (walk_vertices s p))} = {p. is_walk es s p t}"
proof -
  have "t \<notin> set (butlast (walk_vertices s p))" if w: "is_walk es s p t" for p
  proof -
    have "distinct (walk_vertices s p)" by (rule walk_distinct [OF assms w])
    moreover have "walk_vertices s p = butlast (walk_vertices s p) @ [t]"
      using walk_last [OF w] append_butlast_last_id [of "walk_vertices s p"]
      by (simp add: walk_vertices_def)
    ultimately have "distinct (butlast (walk_vertices s p) @ [t])" by simp
    then show ?thesis by simp
  qed
  then show ?thesis by blast
qed

lemma count_paths_card_walks:
  assumes d: "distinct es"
    and topo: "topo_order (g_adj (build_graph es)) (g_nodes (build_graph es)) = Inr order"
    and cnt: "count_paths_from_source (g_adj (build_graph es)) (g_nodes (build_graph es)) order s = Inr ways"
    and tv: "t \<in> endpoints es"
  shows "count_of ways t = card {p. is_walk es s p t}"
proof -
  have ac: "acyclic (edge_rel es)" using topo built_topo_order_NotADag_iff [of es] by auto
  obtain ps where en: "enumerate_paths_dfs (Suc (card (endpoints es))) (g_adj (build_graph es)) s t = Some ps"
    using enumerate_paths_enough [OF ac, of "Suc (card (endpoints es))" s t] by blast
  from enumerate_walks_exact [OF d en] obtain P where
    ps: "ps = map (\<lambda>p. (walk_vertices s p, walk_cost p)) P" and dP: "distinct P"
    and sP: "set P = {p. is_walk es s p t}"
    using acyclic_walks_arrive [OF ac] by auto
  have "length ps = card {p. is_walk es s p t}"
    using ps dP sP distinct_card [OF dP] by simp
  with enumerate_count_built [OF topo cnt tv en] show ?thesis by simp
qed

lemma walk_Suc_avoid:
  assumes "u \<noteq> t"
  shows "(\<exists>(x, w) \<in> set (succs es u). \<exists>p v. is_walk es x p v \<and> length p = n \<and> t \<notin> set (take n (walk_vertices x p)))
    \<longleftrightarrow> (\<exists>p v. is_walk es u p v \<and> length p = Suc n \<and> t \<notin> set (take (Suc n) (walk_vertices u p)))"
proof
  assume "\<exists>(x, w) \<in> set (succs es u). \<exists>p v. is_walk es x p v \<and> length p = n \<and> t \<notin> set (take n (walk_vertices x p))"
  then obtain x w p v where "(u, x, w) \<in> set es" "is_walk es x p v" "length p = n"
      "t \<notin> set (take n (walk_vertices x p))" by (auto simp: succs_iff)
  with assms show "\<exists>p v. is_walk es u p v \<and> length p = Suc n \<and> t \<notin> set (take (Suc n) (walk_vertices u p))"
    by (intro exI [of _ "(u, x, w) # p"] exI [of _ v]) (simp add: walk_Cons)
next
  assume "\<exists>p v. is_walk es u p v \<and> length p = Suc n \<and> t \<notin> set (take (Suc n) (walk_vertices u p))"
  then obtain e p v where "is_walk es u (e # p) v" "length p = n" "t \<notin> set (take (Suc n) (walk_vertices u (e # p)))"
    by (metis length_Suc_conv)
  moreover obtain a x w where "e = (a, x, w)" by (cases e)
  ultimately have "(x, w) \<in> set (succs es u)" "is_walk es x p v" "length p = n"
      "t \<notin> set (take n (walk_vertices x p))" by (auto simp: succs_iff walk_Cons)
  then show "\<exists>(x, w) \<in> set (succs es u). \<exists>p v. is_walk es x p v \<and> length p = n \<and> t \<notin> set (take n (walk_vertices x p))"
    by blast
qed

lemma dfs_None_iff:
  "\<forall>u. dd_get adj u = succs es u \<Longrightarrow>
     dfs n adj t u acc path = None \<longleftrightarrow>
     (\<exists>p v. is_walk es u p v \<and> length p = n \<and> t \<notin> set (take n (walk_vertices u p)))"
  "\<forall>u. dd_get adj u = succs es u \<Longrightarrow>
     dfs_edges n adj t vs acc path = None \<longleftrightarrow>
     (\<exists>(x, w) \<in> set vs. \<exists>p v. is_walk es x p v \<and> length p = n \<and> t \<notin> set (take n (walk_vertices x p)))"
proof (induction n adj t u acc path and n adj t vs acc path rule: dfs_dfs_edges.induct)
  case (1 adj t u acc path)
  show ?case by (auto simp: walk_vertices_def intro!: exI [of _ "[]"])
next
  case (2 n adj t u acc path)
  show ?case
  proof (cases "u = t")
    case True
    then show ?thesis by (auto simp: walk_vertices_def)
  next
    case False
    have a: "dd_get adj u = succs es u" using "2.prems" by blast
    have "dfs (Suc n) adj t u acc path = None \<longleftrightarrow>
        (\<exists>(x, w) \<in> set (succs es u). \<exists>p v. is_walk es x p v \<and> length p = n \<and> t \<notin> set (take n (walk_vertices x p)))"
      using "2.IH" [OF False "2.prems"] False a by simp
    also have "\<dots> \<longleftrightarrow> (\<exists>p v. is_walk es u p v \<and> length p = Suc n \<and> t \<notin> set (take (Suc n) (walk_vertices u p)))"
      using False by (rule walk_Suc_avoid)
    finally show ?thesis .
  qed
next
  case (4 n adj t v w vs acc path)
  note i1 = "4.IH"(1) [OF "4.prems"]
  show ?case
  proof (cases "dfs n adj t v (acc + w) (path @ [v])")
    case None
    with i1 show ?thesis by auto
  next
    case (Some ps)
    note i2 = "4.IH"(2) [OF Some "4.prems"]
    from Some i1 have nv: "\<not> (\<exists>p v'. is_walk es v p v' \<and> length p = n \<and> t \<notin> set (take n (walk_vertices v p)))"
      by simp
    have e: "(dfs_edges n adj t ((v, w) # vs) acc path = None) = (dfs_edges n adj t vs acc path = None)"
      using Some by (simp split: option.splits)
    show ?thesis unfolding e i2 using nv by (simp; blast)
  qed
qed simp

lemma enumerate_paths_None_iff:
  "enumerate_paths_dfs n (g_adj (build_graph es)) s t = None \<longleftrightarrow>
   (\<exists>p v. is_walk es s p v \<and> length p = n \<and> t \<notin> set (take n (walk_vertices s p)))"
  using dfs_None_iff(1) [of "g_adj (build_graph es)" es n t s 0 "[s]"]
  by (simp add: build_graph_adj enumerate_paths_dfs_def)

text \<open>
  C27. Refinement of the enumerator: on a graph built from an edge list without repeated
  triples, the records \<open>enumerate_paths_dfs\<close> returns are, in order, the vertex
  lists and costs of a list of walks that holds every walk from the source that reaches
  the target only at its end, each exactly once.
\<close>

theorem enumerate_paths_exact:
  assumes "distinct es" and "enumerate_paths_dfs fuel (g_adj (build_graph es)) s t = Some ps"
  shows "\<exists>P. ps = map (\<lambda>p. (walk_vertices s p, walk_cost p)) P \<and> distinct P
           \<and> set P = {p. is_walk es s p t \<and> t \<notin> set (butlast (walk_vertices s p))}"
  using assms by (rule enumerate_walks_exact)

text \<open>
  C28. The counter against its reference definition: on a DAG built from an edge list
  without repeated triples, the entry \<open>ways[t]\<close> of \<open>count_paths_from_source\<close> is
  the number of walks of the edge list from the source to \<open>t\<close>.
\<close>

theorem count_paths_counts_walks:
  assumes "distinct es"
    and "topo_order (g_adj (build_graph es)) (g_nodes (build_graph es)) = Inr order"
    and "count_paths_from_source (g_adj (build_graph es)) (g_nodes (build_graph es)) order s = Inr ways"
    and "t \<in> endpoints es"
  shows "count_of ways t = card {p. is_walk es s p t}"
  using assms by (rule count_paths_card_walks)

text \<open>
  C21. The recursion depth of the enumerator, exactly: with a budget of \<open>n\<close> nested
  calls of \<open>dfs\<close> (Python's recursion limit less the frames below the first call),
  the enumeration runs out of depth, Python's \<open>RecursionError\<close>, if and only if the
  graph has a walk of \<open>n\<close> edges from the source whose first \<open>n\<close> vertices avoid
  the target. On a DAG no walk is longer than the number of vertices, so a larger
  budget always returns (C14); a cycle reachable from the source and avoiding the
  target makes every budget run out.
\<close>

theorem enumerate_paths_recursion_depth:
  "enumerate_paths_dfs n (g_adj (build_graph es)) s t = None \<longleftrightarrow>
   (\<exists>p v. is_walk es s p v \<and> length p = n \<and> t \<notin> set (take n (walk_vertices s p)))"
  by (rule enumerate_paths_None_iff)

end
