(* ===== verification/Console.thy ===== *)
theory Console
  imports Items
begin

text \<open>
  The console output of src/low_level_problem.py. Standard output is the byte
  string the \<open>print\<close> calls write, UTF-8 encoded as Python writes it under a UTF-8
  locale: the accented letters of the Spanish messages are their two UTF-8 bytes.
  \<open>print(a, b, ...)\<close> writes \<open>str\<close> of its arguments separated by one space and a
  newline; \<open>str\<close> of a list, a tuple, a dict and a bool are Python's
  \<open>[0, 6, 7, 8]\<close>, \<open>(8, 9, 0)\<close>, \<open>{0: 1, 1: 1}\<close> and \<open>True\<close>. Each
  \<open>..._out\<close> function pairs the text an item prints with the value the item
  returns; an item that raises prints nothing before the exception, since every item
  prints only after its computation (the traceback goes to standard error and is not
  modelled).
\<close>

fun py_join :: "string \<Rightarrow> string list \<Rightarrow> string" where
  "py_join sep [] = []"
| "py_join sep [x] = x"
| "py_join sep (x # y # ys) = x @ sep @ py_join sep (y # ys)"

definition py_print :: "string list \<Rightarrow> string" where
  "py_print args = py_join '' '' args @ [CHR 0x0A]"

definition py_str_list :: "int list \<Rightarrow> string" where
  "py_str_list xs = ''['' @ py_join '', '' (map string_of_int xs) @ '']''"

definition py_str_dict :: "ways \<Rightarrow> string" where
  "py_str_dict d = ''{'' @ py_join '', '' (map (\<lambda>(k, v). string_of_int k @ '': '' @ string_of_nat v) d) @ ''}''"

fun py_str_tuple :: "edge \<Rightarrow> string" where
  "py_str_tuple (u, v, w) = ''('' @ string_of_int u @ '', '' @ string_of_int v @ '', '' @ string_of_int w @ '')''"

definition py_str_bool :: "bool \<Rightarrow> string" where
  "py_str_bool b = (if b then ''True'' else ''False'')"

text \<open>UTF-8 bytes of the accented letters.\<close>

definition a_acute :: string where "a_acute = [CHR 0xC3, CHR 0xA1]"
definition o_acute :: string where "o_acute = [CHR 0xC3, CHR 0xB3]"
definition I_acute :: string where "I_acute = [CHR 0xC3, CHR 0x8D]"

text \<open>\<^verbatim>\<open>print("ways:", ways)\<close> and the line naming \<open>V\<close> in \<open>solve_item1\<close>.\<close>

definition item1_lines :: "vertex \<Rightarrow> item1_result \<Rightarrow> string" where
  "item1_lines source r =
     py_print [''ways:'', py_str_dict (it1_ways r)]
     @ py_print [''V m'' @ a_acute @ ''s alcanzable desde '' @ string_of_int source @ '': ''
                 @ string_of_int (it1_V r) @ '' con '' @ string_of_nat (count_of (it1_ways r) (it1_V r)) @ '' caminos'']"

definition solve_item1_out :: "edge list \<Rightarrow> vertex \<Rightarrow> string \<times> (py_error + item1_result)" where
  "solve_item1_out edges source =
     (case solve_item1 edges source of
        Inl e \<Rightarrow> ([], Inl e)
      | Inr r \<Rightarrow> (item1_lines source r, Inr r))"

text \<open>The total and one line \<^verbatim>\<open>print(p, "costo =", c)\<close> per ranked path.\<close>

definition item2_lines :: "item1_result \<Rightarrow> path_rec list \<Rightarrow> string" where
  "item2_lines r ps =
     py_print [[CHR 0x0A] @ ''Total caminos hacia V='' @ string_of_int (it1_V r) @ '': '' @ string_of_nat (length ps)]
     @ concat (map (\<lambda>(p, c). py_print [py_str_list p, ''costo ='', string_of_int c]) ps)"

definition solve_item2_out :: "edge list \<Rightarrow> vertex \<Rightarrow> string \<times> (py_error + item1_result \<times> path_rec list option)" where
  "solve_item2_out edges source =
     (case solve_item2 edges source of
        Inl e \<Rightarrow> ([], Inl e)
      | Inr (r, None) \<Rightarrow> (item1_lines source r, Inr (r, None))
      | Inr (r, Some ps) \<Rightarrow> (item1_lines source r @ item2_lines r ps, Inr (r, Some ps)))"

text \<open>The \<open>"reason"\<close> of the infeasibility report.\<close>

definition reason_text :: "infeasible_report \<Rightarrow> string" where
  "reason_text r =
     ''No se puede cumplir (3.a) sin violar (3.b): '' @ ''suma m'' @ a_acute
     @ ''xima de caminos desde nodos permitidos ('' @ string_of_nat (inf_cap r) @ '') ''
     @ ''<= caminos a V ('' @ string_of_nat (inf_waysV r) @ '').''"

text \<open>The lines items 3 and 6 print for a proposal.\<close>

definition proposal_lines :: "proposal \<Rightarrow> string" where
  "proposal_lines p =
     py_print [''V = '' @ string_of_int (pr_V p) @ '' con '' @ string_of_nat (pr_waysV p) @ '' caminos'']
     @ py_print [''Propuesta V' = '' @ string_of_int (pr_V_prime p) @ ''  (becomes_most_reachable=''
                 @ py_str_bool (pr_becomes_most_reachable p) @ '')'']
     @ py_print [''Aristas a insertar (u, V', w=0):'']
     @ concat (map (\<lambda>e. py_print [py_str_tuple e]) (pr_insertion_edges p))
     @ py_print [''Padres elegidos:'', py_str_list (pr_picked p)]
     @ py_print [''ways[V'] ='', string_of_nat (pr_waysV_prime p)]"

definition item3_lines :: "insertion_result \<Rightarrow> string" where
  "item3_lines res =
     (case res of
        Impossible r \<Rightarrow>
          py_print [reason_text r]
          @ py_print [''V:'', string_of_int (inf_V r), '' caminos a V:'', string_of_nat (inf_waysV r)]
          @ py_print [''N(V):'', py_str_list (inf_neighborsV r)]
          @ py_print [''Permitidos:'', py_str_list (inf_allowed r)]
          @ py_print [''Capacidad:'', string_of_nat (inf_cap r)]
      | Possible p \<Rightarrow> proposal_lines p)"

definition item4_lines :: "insertion_result \<Rightarrow> string" where
  "item4_lines res =
     (case res of
        Possible _ \<Rightarrow> py_print [''En este grafo, (3.b) S'' @ I_acute @ '' es posible. (Nada que reportar como error.)'']
      | Impossible r \<Rightarrow> py_print [reason_text r])"

definition item5_lines :: "insertion_result \<Rightarrow> string" where
  "item5_lines res =
     (case res of
        Impossible r \<Rightarrow> py_print [reason_text r]
      | Possible p \<Rightarrow>
          py_print [''Inserci'' @ o_acute @ ''n de V' en formato de entrada {u, v, w}:'']
          @ concat (map (\<lambda>l. py_print [l]) (item5_edge_lines res)))"

definition item6_lines :: "insertion_result \<Rightarrow> string" where
  "item6_lines res =
     (case res of
        Impossible r \<Rightarrow> py_print [reason_text r]
      | Possible p \<Rightarrow> proposal_lines p)"

definition invalid_option_line :: string where
  "invalid_option_line = py_print [''Opci'' @ o_acute @ ''n no v'' @ a_acute @ ''lida. Usa 1..5'']"

text \<open>What \<open>main\<close> writes: the text of the item it runs, nothing when an item or the
  conversion of the argument raises.\<close>

definition run_stdout :: "vertex \<Rightarrow> driver_run \<Rightarrow> string" where
  "run_stdout source run =
     (case run of
        Run_item1 r \<Rightarrow> (case r of Inl _ \<Rightarrow> [] | Inr x \<Rightarrow> item1_lines source x)
      | Run_item2 r \<Rightarrow> (case r of Inl _ \<Rightarrow> []
                                | Inr (x, None) \<Rightarrow> item1_lines source x
                                | Inr (x, Some ps) \<Rightarrow> item1_lines source x @ item2_lines x ps)
      | Run_item3 r \<Rightarrow> (case r of Inl _ \<Rightarrow> [] | Inr x \<Rightarrow> item3_lines x)
      | Run_item4 r \<Rightarrow> (case r of Inl _ \<Rightarrow> [] | Inr x \<Rightarrow> item4_lines x)
      | Run_item5 r \<Rightarrow> (case r of Inl _ \<Rightarrow> [] | Inr x \<Rightarrow> item5_lines x)
      | Run_item6 r \<Rightarrow> (case r of Inl _ \<Rightarrow> [] | Inr x \<Rightarrow> item6_lines x)
      | Invalid_option \<Rightarrow> invalid_option_line)"

definition main_stdout :: "bool \<Rightarrow> string list \<Rightarrow> string" where
  "main_stdout edges_importable argv =
     (case main edges_importable argv of
        Inl _ \<Rightarrow> []
      | Inr run \<Rightarrow> run_stdout (snd (dataset edges_importable)) run)"

text \<open>\<^verbatim>\<open>if __name__ == "__main__": main()\<close>: the module prints when it runs as a
  script and nothing when it is imported, as the unit tests import it.\<close>

definition module_stdout :: "bool \<Rightarrow> bool \<Rightarrow> string list \<Rightarrow> string" where
  "module_stdout is_main edges_importable argv =
     (if is_main then main_stdout edges_importable argv else [])"

section \<open>Lemmas\<close>

lemma main_stdout_invalid:
  assumes "k < 1 \<or> 6 < k"
  shows "main_stdout imp [p, string_of_int k] = invalid_option_line"
proof -
  have "main imp [p, string_of_int k] = Inr Invalid_option"
    using main_option(1) [of "[p, string_of_int k]" k imp] py_int_string_of_int [of k] assms
    by (auto simp: main_dispatch_def)
  then show ?thesis by (simp add: main_stdout_def run_stdout_def)
qed

text \<open>
  C31. The driver's usage message lags behind its dispatch: option 6 runs item 6, yet
  every integer outside 1 to 6 prints the message \<open>Opcion no valida. Usa 1..5\<close> (accents aside), a usage
  line that leaves out the sixth item.
\<close>

theorem main_usage_omits_item6:
  assumes "k < 1 \<or> 6 < k"
  shows "main imp [p, ''6''] = Inr (Run_item6 (solve_item6 (fst (dataset imp)) (snd (dataset imp))))
    \<and> main_stdout imp [p, string_of_int k] =
        ''Opci'' @ [CHR 0xC3, CHR 0xB3] @ ''n no v'' @ [CHR 0xC3, CHR 0xA1] @ ''lida. Usa 1..5'' @ [CHR 0x0A]"
proof -
  have "py_int ''6'' = Inr 6" by code_simp
  then have "main imp [p, ''6''] = Inr (Run_item6 (solve_item6 (fst (dataset imp)) (snd (dataset imp))))"
    using main_option(1) [of "[p, ''6'']" 6 imp] by (simp add: main_dispatch_def)
  moreover have "invalid_option_line =
      ''Opci'' @ [CHR 0xC3, CHR 0xB3] @ ''n no v'' @ [CHR 0xC3, CHR 0xA1] @ ''lida. Usa 1..5'' @ [CHR 0x0A]"
    by (simp add: invalid_option_line_def py_print_def o_acute_def a_acute_def)
  ultimately show ?thesis using main_stdout_invalid [OF assms, of imp p] by simp
qed

end
