(* ===== verification/Planner_Findings.thy ===== *)
theory Planner_Findings
  imports Insertion_Planner Queries
begin

text \<open>
  What \<open>propose_V_prime_insertion\<close> of src/low_level_problem.py does outside the
  cases the specification describes, each stated for a whole class of inputs:
  the permissive policy admits \<open>V\<close> itself and so succeeds where the
  specification expects infeasibility; a source that is not a vertex collides with, or
  ties with, the default \<open>V' = max(nodes) + 1\<close>; and a caller-supplied \<open>vprime\<close>
  that reaches a parent of maximal count closes a cycle. The lemmas first describe the
  planner's first pass when the source lies outside the graph and the second pass on
  the augmented edge list.
\<close>

lemma built_reach: "reachable_from_source (g_adj (build_graph es)) s = {v. (s, v) \<in> (edge_rel es)\<^sup>*}"
  by (simp add: reachable_from_source_rel built_adj_rel Image_def)

lemma built_NV: "planner_NV es V = {v. (V, v) \<in> edge_rel es \<or> (v, V) \<in> edge_rel es}"
  using edge_rel_succs [of V _ es] edge_rel_preds [of _ V es]
  unfolding neighbors_undirected_def build_graph_adj build_graph_radj by blast

lemma fresh_default: "es \<noteq> [] \<Longrightarrow> Max (endpoints es) + 1 \<notin> endpoints es"
  using Max_ge [OF finite_endpoints, of _ es] by fastforce

lemma sum_two_le:
  assumes "distinct xs" "a \<in> set xs" "b \<in> set xs" "a \<noteq> b"
  shows "f a + f b \<le> sum_list (map f xs :: nat list)"
proof -
  have "f a + f b = sum f {a, b}" using assms(4) by simp
  also have "\<dots> \<le> sum f (set xs)" using assms(2,3) by (intro sum_mono2) auto
  also have "\<dots> = sum_list (map f xs)" using assms(1) by (simp add: sum_list_distinct_conv_sum_set)
  finally show ?thesis .
qed

text \<open>The greedy choice takes at least one parent of maximal count.\<close>

lemma pick_has_max:
  assumes pne: "pick \<noteq> []" and psub: "set pick \<subseteq> set A"
    and pdom: "\<forall>u \<in> set A - set pick. \<forall>w \<in> set pick. (c :: vertex \<Rightarrow> nat) u \<le> c w"
  shows "\<exists>w \<in> set pick. \<forall>u \<in> set A. c u \<le> c w"
proof -
  have fin: "finite (set A)" "set A \<noteq> {}" using pne psub by auto
  obtain m where m: "m \<in> set A" "\<forall>u \<in> set A. c u \<le> c m"
    using Max_in [of "c ` set A"] Max_ge [of "c ` set A"] fin by fastforce
  show ?thesis
  proof (cases "m \<in> set pick")
    case True with m show ?thesis by blast
  next
    case False
    from pne obtain w where w: "w \<in> set pick" by (cases pick) auto
    with pdom False m have "c m \<le> c w" by blast
    with m w show ?thesis by (meson order_trans)
  qed
qed

text \<open>A second pass that adds an edge from a vertex reached from the new vertex.\<close>

lemma sink_edges_cycle:
  assumes "w \<in> set pick" and "(x, w) \<in> (edge_rel es)\<^sup>*"
  shows "\<not> acyclic (edge_rel (es @ map (\<lambda>u. (u, x, 0)) pick))"
proof -
  let ?R = "edge_rel (es @ map (\<lambda>u. (u, x, 0)) pick)"
  have "(x, w) \<in> ?R\<^sup>*" using assms(2) by (rule rtrancl_mono [THEN subsetD, rotated]) simp
  moreover have "(w, x) \<in> ?R" using assms(1) by (simp add: edge_rel_sink_edges)
  ultimately have "(x, x) \<in> ?R\<^sup>+" by (rule rtrancl_into_trancl1)
  then show ?thesis unfolding acyclic_def by blast
qed

lemma propose_new_vertex_cycle:
  assumes r: "recount es s = Inr (ways, V)"
    and cap: "count_of ways V < sum_list (map (count_of ways) (planner_allowed es s a V))"
    and reach: "\<forall>u \<in> set (planner_allowed es s a V).
       (\<forall>w \<in> set (planner_allowed es s a V). count_of ways w \<le> count_of ways u) \<longrightarrow>
         (fresh_id es vp, u) \<in> (edge_rel es)\<^sup>*"
  shows "propose_V_prime_insertion es s vp a = Inl NotADag"
proof -
  let ?x = "fresh_id es vp"
  from recount_facts [OF r] have "V \<in> endpoints es" by blast
  then have "es \<noteq> []" using endpoints_Nil_iff [of es] by auto
  from fresh_id_eval [OF this, of vp] have vpv:
    "(case vp of None \<Rightarrow> bind_res (py_max_key id (g_nodes (build_graph es))) (\<lambda>m. Inr (m + 1))
                | Some x \<Rightarrow> Inr x) = Inr ?x" .
  let ?A = "planner_allowed es s a V"
  obtain order where fp:
    "topo_order (g_adj (build_graph es)) (g_nodes (build_graph es)) = Inr order"
    "count_paths_from_source (g_adj (build_graph es)) (g_nodes (build_graph es)) order s = Inr ways"
    "dict_max_key ways (g_nodes (build_graph es)) = Inr V"
    "dict_get ways V = Inr (count_of ways V)"
    "dict_get_all ways ?A = Inr (map (count_of ways) ?A)"
    using r by (rule propose_first_pass)
  from planner_allowed_facts [OF r, of a] have dA: "distinct ?A" and subA: "set ?A \<subseteq> dom (map_of ways)"
    by blast+
  from planner_pick [OF subA dA cap] obtain cands pick acc where
    sc: "sort_by_ways_desc ways ?A = Inr cands" and g: "greedy_pick ways (count_of ways V) cands [] 0 = Inr (pick, acc)"
    and pne: "pick \<noteq> []" and psub: "set pick \<subseteq> set ?A"
    and pdom: "\<forall>u \<in> set ?A - set pick. \<forall>w \<in> set pick. count_of ways u \<le> count_of ways w"
    by blast
  from pick_has_max [OF pne psub pdom] obtain w where w: "w \<in> set pick"
    and wm: "\<forall>u \<in> set ?A. count_of ways u \<le> count_of ways w" by blast
  with reach psub have "(?x, w) \<in> (edge_rel es)\<^sup>*" by blast
  from recount_cyclic [OF sink_edges_cycle [OF w this]]
  have "recount (es @ map (\<lambda>u. (u, ?x, 0)) pick) s = Inl NotADag" .
  with fp cap vpv sc g show ?thesis by (simp add: propose_V_prime_insertion_def Let_def)
qed

lemma propose_permissive_feasible:
  assumes r: "recount es s = Inr (ways, V)" and s: "s \<in> endpoints es" and sV: "s \<noteq> V"
    and nb: "(s, V) \<notin> edge_rel es" "(V, s) \<notin> edge_rel es"
  shows "\<exists>p. propose_V_prime_insertion es s None True = Inr (Possible p)
     \<and> V \<in> set (pr_allowed p) \<and> pr_becomes_most_reachable p"
proof -
  let ?A = "planner_allowed es s True V"
  from recount_facts [OF r] have ac: "acyclic (edge_rel es)" and Vv: "V \<in> endpoints es"
    and maxV: "\<forall>y \<in> endpoints es. count_of ways y \<le> count_of ways V"
    and rec: "\<forall>v \<in> insert s (endpoints es). count_of ways v =
           (if v = s then 1 else 0) + sum_list (map (\<lambda>(u, _). count_of ways u) (preds es v))"
    by blast+
  have cs: "1 \<le> count_of ways s" using rec s by simp
  then have "0 < count_of ways V" using maxV s by fastforce
  from recurrence_pos_reach [OF ac _ rec _ this] Vv have sVr: "(s, V) \<in> (edge_rel es)\<^sup>*" by blast
  have "(V, V) \<notin> edge_rel es" using ac by (auto simp: acyclic_def)
  with planner_allowed_facts [OF r, of True] sVr nb
  have inA: "V \<in> set ?A" "s \<in> set ?A" and dA: "distinct ?A"
    by (auto simp: built_reach built_NV)
  from sum_two_le [OF dA inA sV [symmetric], of "count_of ways"] cs
  have cap: "count_of ways V < sum_list (map (count_of ways) ?A)" by simp
  have fresh: "fresh_id es None \<notin> endpoints es" using s fresh_default [of es] endpoints_Nil_iff [of es] by auto
  from propose_feasible_run [OF r s fresh cap] inA show ?thesis by auto
qed


text \<open>The first pass when the source is not a vertex: only the source has a path, and
  it is the only allowed parent under either policy.\<close>

lemma source_outside_first_pass:
  assumes ne: "es \<noteq> []" and ac: "acyclic (edge_rel es)" and sv: "s \<notin> endpoints es"
  obtains ways V where "recount es s = Inr (ways, V)" "V \<in> endpoints es"
    "count_of ways s = 1" "count_of ways V = 0" "planner_allowed es s a V = [s]"
proof -
  from recount_total [OF ne ac, of s] obtain ways V where r: "recount es s = Inr (ways, V)" by blast
  from recount_facts [OF r] have Vv: "V \<in> endpoints es"
    and rec: "\<forall>v \<in> insert s (endpoints es). count_of ways v =
           (if v = s then 1 else 0) + sum_list (map (\<lambda>(u, _). count_of ways u) (preds es v))"
    by blast+
  obtain order where
    "topo_order (g_adj (build_graph es)) (g_nodes (build_graph es)) = Inr order"
    "count_paths_from_source (g_adj (build_graph es)) (g_nodes (build_graph es)) order s = Inr ways"
    using r unfolding recount_Inr by blast
  from count_outside_source [OF this Vv sv] have c0: "count_of ways V = 0" .
  have c1: "count_of ways s = 1" using rec sv by (simp add: preds_not_endpoint)
  have nd: "s \<notin> Domain (edge_rel es)" "s \<notin> Range (edge_rel es)"
    using sv edge_rel_endpoints [of s _ es] edge_rel_endpoints [of _ s es] by blast+
  then have reach: "{v. (s, v) \<in> (edge_rel es)\<^sup>*} = {s}"
    by (auto elim: converse_rtranclE)
  have "s \<notin> planner_NV es V" "s \<noteq> V" using nd Vv sv by (auto simp: built_NV)
  with reach have "reachable_from_source (g_adj (build_graph es)) s - planner_NV es V - (if a then {} else {V}) = {s}"
    by (auto simp: built_reach)
  then have "planner_allowed es s a V = [s]" by (cases a) (simp_all add: allowed_parents_def)
  with r Vv c1 c0 that show ?thesis by blast
qed

lemma propose_source_is_default_vertex:
  assumes ne: "es \<noteq> []" and ac: "acyclic (edge_rel es)" and s: "s = Max (endpoints es) + 1"
  shows "propose_V_prime_insertion es s None a = Inl NotADag"
proof -
  have sv: "s \<notin> endpoints es" using s fresh_default [OF ne] by simp
  obtain ways V where r: "recount es s = Inr (ways, V)" and c1: "count_of ways s = 1"
    and c0: "count_of ways V = 0" and A: "planner_allowed es s a V = [s]"
    using source_outside_first_pass [OF ne ac sv] by blast
  have cap: "count_of ways V < sum_list (map (count_of ways) (planner_allowed es s a V))"
    using A c0 c1 by simp
  have "\<forall>u \<in> set (planner_allowed es s a V).
      (\<forall>w \<in> set (planner_allowed es s a V). count_of ways w \<le> count_of ways u) \<longrightarrow>
        (fresh_id es None, u) \<in> (edge_rel es)\<^sup>*"
    using A s by simp
  from propose_new_vertex_cycle [OF r cap this] show ?thesis .
qed


lemma source_outside_second_pass:
  assumes ne: "es \<noteq> []" and ac: "acyclic (edge_rel es)" and sv: "s \<notin> endpoints es"
    and xv: "x \<notin> endpoints es" and xs: "x \<noteq> s"
  obtains ways2 V2 where "recount (es @ [(s, x, 0)]) s = Inr (ways2, V2)"
    "x \<in> dom (map_of ways2)" "count_of ways2 x = 1" "s < x \<Longrightarrow> V2 \<noteq> x"
proof -
  let ?es2 = "es @ [(s, x, 0)]"
  have ms: "[(s, x, 0)] = map (\<lambda>u. (u, x, 0)) [s]" by simp
  have "x \<notin> Domain (edge_rel es)" using xv edge_rel_endpoints [of x _ es] by blast
  with ac xs have ac2: "acyclic (edge_rel ?es2)"
    using acyclic_add_sink [of "edge_rel es" x "{s}"] by simp
  from recount_total [OF _ ac2, of s] obtain ways2 V2 where r2: "recount ?es2 s = Inr (ways2, V2)" by auto
  have ep2: "endpoints ?es2 = insert s (insert x (endpoints es))" by (auto simp: endpoints_def)
  from recount_facts [OF r2] ep2 have d2: "dom (map_of ways2) = insert s (insert x (endpoints es))"
    and rec2: "\<forall>v \<in> insert s (insert x (endpoints es)). count_of ways2 v =
           (if v = s then 1 else 0) + sum_list (map (\<lambda>(u, _). count_of ways2 u) (preds ?es2 v))"
    by auto
  have c1: "count_of ways2 s = 1" using rec2 sv xs by (simp add: preds_not_endpoint)
  have cx: "count_of ways2 x = 1" using rec2 xv xs c1 by (simp add: preds_not_endpoint)
  have "V2 \<noteq> x" if lt: "s < x"
  proof
    assume V2x: "V2 = x"
    from r2 have m: "dict_max_key ways2 (g_nodes (build_graph ?es2)) = Inr V2" unfolding recount_Inr by blast
    have "s \<in> set (g_nodes (build_graph ?es2))" using build_graph_nodes [of ?es2] ep2 by simp
    from dict_max_key_first [OF m _ _ this] build_graph_nodes [of ?es2] lt V2x c1 cx show False by simp
  qed
  with r2 d2 cx that show ?thesis by blast
qed

lemma propose_source_below_default:
  assumes ne: "es \<noteq> []" and ac: "acyclic (edge_rel es)" and sv: "s \<notin> endpoints es"
    and lt: "s < Max (endpoints es) + 1"
  shows "\<exists>p. propose_V_prime_insertion es s None a = Inr (Possible p)
     \<and> pr_V_prime p = Max (endpoints es) + 1 \<and> pr_picked p = [s] \<and> pr_waysV_prime p = 1
     \<and> \<not> pr_becomes_most_reachable p"
proof -
  let ?x = "Max (endpoints es) + 1"
  obtain ways V where r: "recount es s = Inr (ways, V)" and Vv: "V \<in> endpoints es"
    and c1: "count_of ways s = 1" and c0: "count_of ways V = 0" and A: "planner_allowed es s a V = [s]"
    using source_outside_first_pass [OF ne ac sv] by blast
  obtain order where fp:
    "topo_order (g_adj (build_graph es)) (g_nodes (build_graph es)) = Inr order"
    "count_paths_from_source (g_adj (build_graph es)) (g_nodes (build_graph es)) order s = Inr ways"
    "dict_max_key ways (g_nodes (build_graph es)) = Inr V"
    "dict_get ways V = Inr (count_of ways V)"
    "dict_get_all ways (planner_allowed es s a V) = Inr (map (count_of ways) (planner_allowed es s a V))"
    using r by (rule propose_first_pass)
  have cap: "count_of ways V < sum_list (map (count_of ways) (planner_allowed es s a V))"
    using A c0 c1 by simp
  from planner_allowed_facts [OF r, of a] have "distinct (planner_allowed es s a V)"
    and "set (planner_allowed es s a V) \<subseteq> dom (map_of ways)" by blast+
  from planner_pick [OF this(2,1) cap] obtain cands pick acc where
    sc: "sort_by_ways_desc ways (planner_allowed es s a V) = Inr cands"
    and g: "greedy_pick ways (count_of ways V) cands [] 0 = Inr (pick, acc)"
    and pne: "pick \<noteq> []" and psub: "set pick \<subseteq> set (planner_allowed es s a V)" and pd: "distinct pick"
    by blast
  from pne psub pd A have pick: "pick = [s]" by (cases pick) (auto simp: subset_singleton_iff)
  have xv: "?x \<notin> endpoints es" by (rule fresh_default [OF ne])
  have xs: "?x \<noteq> s" using lt by simp
  obtain ways2 V2 where r2: "recount (es @ [(s, ?x, 0)]) s = Inr (ways2, V2)"
    and d2: "?x \<in> dom (map_of ways2)" and cx: "count_of ways2 ?x = 1" and nV: "V2 \<noteq> ?x"
    using source_outside_second_pass [OF ne ac sv xv xs] lt by blast
  have vpv: "(case None of None \<Rightarrow> bind_res (py_max_key id (g_nodes (build_graph es))) (\<lambda>m. Inr (m + 1))
                | Some x \<Rightarrow> Inr x) = Inr ?x"
    using fresh_id_eval [OF ne, of None] by simp
  let ?P = "\<lparr>pr_V = V, pr_waysV = 0, pr_V_prime = ?x, pr_waysV_prime = 1,
             pr_becomes_most_reachable = False, pr_neighborsV = sorted_list_of_set (planner_NV es V),
             pr_allowed = [s], pr_picked = [s], pr_insertion_edges = [(s, ?x, 0)]\<rparr>"
  have "propose_V_prime_insertion es s None a = Inr (Possible ?P)"
    using fp cap vpv sc g r2 dict_get_dom [OF d2] cx nV c0 A
    by (simp add: propose_V_prime_insertion_def Let_def pick)
  then show ?thesis by (intro exI [of _ ?P]) simp
qed

text \<open>
  C1. The permissive policy (\<open>allow_v_as_parent=True\<close>) admits \<open>V\<close> itself as a
  parent. Whenever the source is a vertex other than \<open>V\<close> and not adjacent to it,
  both are allowed, the capacity is at least \<open>ways[V] + 1\<close>, and the planner returns
  a proposal whose \<open>V'\<close> becomes the most reachable vertex. The specification says
  the diamond \<open>0 \<rightarrow> 1 \<rightarrow> 3, 0 \<rightarrow> 2 \<rightarrow> 3\<close> is infeasible under either policy; the
  diamond is such a graph, so the code does not do that.
\<close>

theorem propose_permissive_admits_V:
  assumes "recount es s = Inr (ways, V)" and "s \<in> endpoints es" and "s \<noteq> V"
    and "(s, V) \<notin> edge_rel es" and "(V, s) \<notin> edge_rel es"
  shows "\<exists>p. propose_V_prime_insertion es s None True = Inr (Possible p)
     \<and> V \<in> set (pr_allowed p) \<and> pr_becomes_most_reachable p"
  using assms by (rule propose_permissive_feasible)

text \<open>
  C10. When the source is not a vertex and equals \<open>max(nodes) + 1\<close>, the default
  \<open>V'\<close> is the source itself. On every non-empty acyclic edge list the only allowed
  parent is then the source, the planner inserts the self-loop \<open>source \<rightarrow> source\<close>,
  and the second pass raises the cycle error, under either policy.
\<close>

theorem propose_source_collision:
  assumes "es \<noteq> []" and "acyclic (edge_rel es)" and "s = Max (endpoints es) + 1"
  shows "propose_V_prime_insertion es s None a = Inl NotADag"
  using assms by (rule propose_source_is_default_vertex)

text \<open>
  C11. When the source is not a vertex and lies below \<open>max(nodes) + 1\<close>, on every
  non-empty acyclic edge list the planner reports a proposal (\<open>possible\<close>) with the
  source as the only picked parent, one path to \<open>V'\<close>, and
  \<open>becomes_most_reachable = False\<close>: in the augmented graph the source also has one
  path and comes first in \<open>max\<close>, so the post-check fails under either policy.
\<close>

theorem propose_source_outside_not_most_reachable:
  assumes "es \<noteq> []" and "acyclic (edge_rel es)" and "s \<notin> endpoints es"
    and "s < Max (endpoints es) + 1"
  shows "\<exists>p. propose_V_prime_insertion es s None a = Inr (Possible p)
     \<and> pr_V_prime p = Max (endpoints es) + 1 \<and> pr_picked p = [s] \<and> pr_waysV_prime p = 1
     \<and> \<not> pr_becomes_most_reachable p"
  using assms by (rule propose_source_below_default)

text \<open>
  C12. A caller-supplied \<open>vprime\<close> is used unchecked. When the first pass succeeds,
  the capacity exceeds \<open>ways[V]\<close>, and \<open>vprime\<close> reaches every allowed parent of
  maximal count (the source always does), the greedy choice picks one of them, the edge
  back to \<open>vprime\<close> closes a cycle, and the second pass raises the cycle error.
\<close>

theorem propose_vprime_closes_cycle:
  assumes "recount es s = Inr (ways, V)"
    and "count_of ways V < sum_list (map (count_of ways) (planner_allowed es s a V))"
    and "\<forall>u \<in> set (planner_allowed es s a V).
       (\<forall>w \<in> set (planner_allowed es s a V). count_of ways w \<le> count_of ways u) \<longrightarrow> (x, u) \<in> (edge_rel es)\<^sup>*"
  shows "propose_V_prime_insertion es s (Some x) a = Inl NotADag"
  using assms propose_new_vertex_cycle [of es s ways V a "Some x"] by simp

end
