(* ===== verification/Spec2Isabelle.thy ===== *)
theory Spec2Isabelle
  imports Tests Path_Spec Console Planner_Findings
begin

text \<open>
  \<^bold>\<open>A verification development of lowLevelProblem.\<close>

  The repository (src/low_level_problem.py, src/edges.py) analyses a small weighted
  DAG. It asks which vertex is reached from a source by the most paths, how the paths
  to it rank by cost, and whether a new vertex \<open>V'\<close> can be inserted, with edges
  only from an allowed set of parents, so that it becomes the most reached vertex.
  Its parts, their theories and their definitions:

  \<^item> \<^bold>\<open>Prelude\<close>: the model's types, with \<open>vertex\<close>, \<open>weight\<close> and
    \<open>edge\<close> as Python ints and a \<open>dict\<close> as an association list in insertion
    order. The exceptions form the datatype \<open>py_error\<close>: \<open>NotADag\<close> is the
    cycle \<open>ValueError\<close>, and \<open>EmptySequence\<close> is \<open>max()\<close> of nothing.
    The Python builtins the code uses are \<open>d[k]\<close> (\<open>dict_get\<close>),
    \<open>defaultdict(list)\<close> (\<open>dd_get\<close>/\<open>dd_append\<close>), \<open>setdefault\<close>
    and \<open>max(xs, key=...)\<close> (\<open>py_max_key\<close>/\<open>dict_max_key\<close>, a first-maximum
    scan). \<open>bind_res\<close> sequences code that may raise. The shared lemmas cover
    dicts, the first maximum, sums of lists and relations.
  \<^item> \<^bold>\<open>Graph_Builder\<close> models \<open>build_graph\<close>: its two loops
    \<open>add_edges\<close> and \<open>ensure_keys\<close>, and its result, the record \<open>graph\<close>.
    The lemmas relate it to the abstract view of the edge list (\<open>succs\<close>,
    \<open>preds\<close>, \<open>endpoints\<close>, \<open>edge_rel\<close>).
  \<^item> \<^bold>\<open>Topo_Sort\<close> models \<open>topo_order\<close> (Kahn): \<open>count_indeg\<close>, the
    queue loop \<open>kahn_loop\<close> and its inner loop \<open>relax\<close>. The loop is a
    \<open>function\<close> whose termination measure is the queue length plus the positive
    in-degrees, so it is total, on cyclic graphs too. The invariant \<open>kahn_inv\<close>
    carries the proofs. \<^bold>\<open>Kahn_Machine\<close> states the same loop as an inductive
    step relation \<open>kahn_iter\<close> on the record \<open>kahn_state\<close>, with its
    reachable states \<open>kahn_reach\<close>.
  \<^item> \<^bold>\<open>Path_Count\<close> models \<open>count_paths_from_source\<close>: \<open>dp_loop\<close> over
    the order and \<open>add_out\<close> over the out-edges, with \<open>ways\<close> a dict of
    naturals. Its lemmas prove that the recurrence determines the table on a DAG
    (\<open>recurrence_unique\<close>), and that counts from every source satisfy the forward
    recurrence (\<open>dp_forward\<close>).
  \<^item> \<^bold>\<open>Path_Enum\<close> models \<open>enumerate_paths_dfs\<close> as the mutually recursive
    \<open>dfs\<close>/\<open>dfs_edges\<close> with fuel, and the ranking as the stable
    \<open>rank_paths\<close>. Walks (\<open>is_walk\<close>, \<open>walk_cost\<close>) are the abstract
    view of a record.
  \<^item> \<^bold>\<open>Analyzer\<close> models \<open>neighbors_undirected\<close> and
    \<open>reachable_from_source\<close>. The stack loop \<open>reach_loop\<close> is a
    \<open>function\<close> that terminates by a lexicographic measure.
  \<^item> \<^bold>\<open>Queries\<close> composes items 1 and 2 (\<open>solve_item1\<close>,
    \<open>solve_item2\<close>).
  \<^item> \<^bold>\<open>Insertion_Planner\<close> models \<open>propose_V_prime_insertion\<close> whole:
    \<open>allowed_parents\<close>, \<open>sort_by_ways_desc\<close>, \<open>greedy_pick\<close>, and the
    second pass \<open>recount\<close>. Its two outcomes are the records
    \<open>infeasible_report\<close> and \<open>proposal\<close>.
  \<^item> \<^bold>\<open>Edge_Format\<close> models the \<open>{u, v, w}\<close> lines of item 5
    (\<open>format_edge\<close>, \<open>string_of_int\<close> as Python's \<open>str\<close>) and a parser of
    that input format.
  \<^item> \<^bold>\<open>Dataset\<close> holds the reference data of src/edges.py, the fallback copy in
    low_level_problem.py, and the import that picks between them. It also holds the
    diamond of the unit tests.
  \<^item> \<^bold>\<open>Py_Int\<close> models Python's \<open>int()\<close> on a string (\<open>py_int\<close>:
    whitespace stripping, one sign, digits with single underscores, \<open>ValueError\<close>
    otherwise), which \<open>main\<close> applies to \<open>sys.argv[1]\<close>.
  \<^item> \<^bold>\<open>Items\<close> holds \<open>solve_item3\<close> to \<open>solve_item6\<close>, the edge lines of
    item 5, \<open>main\<close> over the argument vector with its dispatch, and the contracts
    of items 1, 2 and 5 and of the driver.
  \<^item> \<^bold>\<open>Console\<close> models what the program prints: \<open>print\<close> and Python's
    \<open>str\<close> of ints, lists, tuples, dicts and bools, the lines of every item
    (\<open>item1_lines\<close> to \<open>item6_lines\<close>, \<open>reason_text\<close>), and the standard
    output of \<open>main\<close> (\<open>main_stdout\<close>) as UTF-8 bytes, with the
    \<open>if __name__ == "__main__"\<close> guard (\<open>module_stdout\<close>: a script run prints,
    an import does not).
  \<^item> \<^bold>\<open>Path_Spec\<close> holds the abstract specification of the enumerator and
    the counter: the paths are the walks of the edge list (\<open>is_walk\<close>).
  \<^item> \<^bold>\<open>Tests\<close> models the unit tests of src/tests/tests.py: the fixture
    \<open>setUp\<close>, one function per test method, and \<open>run_test\<close>, which composes them
    as unittest does.
  \<^item> \<^bold>\<open>Planner_Findings\<close> proves what the planner does outside its
    intended use: the permissive policy admits \<open>V\<close> itself as a parent, a
    source outside the graph collides with or outranks the default \<open>V'\<close>, and
    an explicit \<open>vprime\<close> is used unchecked.
  \<^item> This theory holds the witnesses: each theorem with a hypothesis is applied at
    a concrete input (the reference graph, the diamond of the tests, or a two-vertex
    graph), with every hypothesis discharged by evaluation.

  Control flow follows the code. Builder, Sorter and Counter give the most reachable
  vertex. The Enumerator walks the Builder's \<open>adj\<close>. The Planner uses the
  Counter's table and the Analyzer's neighbour and reachable sets, then runs Builder,
  Sorter and Counter again on the augmented edge list.

  What is proved, by claim:
  \<^item> The Builder's contract: C2.
  \<^item> Kahn:
    \<^item> a returned order is a permutation of the vertices with every edge
      forward (C3);
    \<^item> no \<open>KeyError\<close> is raised (C4);
    \<^item> the cycle error is raised exactly on cyclic graphs (C5);
    \<^item> the loop invariant holds in every reachable state, and a state with a
      non-empty queue always has a next round (C22);
    \<^item> the loop always reaches an empty queue (C23);
    \<^item> every \<open>indeg\<close> counter stays between 0 and the vertex's in-degree (C24).
  \<^item> The DP table satisfies the recurrence \<open>count[v] = [v = s] + \<Sum> count[u]\<close>: C6.
  \<^item> The Planner:
    \<^item> the exact infeasibility report (C7);
    \<^item> with a fresh \<open>V'\<close> and the source a vertex, a proposal whose greedy picks
      are minimal and whose \<open>V'\<close> becomes the unique most reachable vertex
      (C8);
    \<^item> the cycle error on a cyclic edge list (C9);
    \<^item> the findings of Planner_Findings: the permissive policy admits \<open>V\<close>
      whenever the source is a vertex other than \<open>V\<close> and not adjacent to it
      (C1); a source equal to \<open>max(nodes) + 1\<close> makes the default \<open>V'\<close>
      collide with it and raises the cycle error (C10); a source outside the graph
      and below that value yields a proposal whose \<open>V'\<close> is not the most
      reachable vertex (C11); an explicit \<open>vprime\<close> that reaches a
      maximal-count allowed parent raises the cycle error (C12).
  \<^item> The Analyzer equals the reflexive transitive closure: C13.
  \<^item> The Enumerator:
    \<^item> enough fuel on a DAG (C14);
    \<^item> every record is a walk with its cost (C15);
    \<^item> as many records as the DP counts (C16);
    \<^item> every recorded path is simple on a DAG (C25).
  \<^item> The items: the contracts of items 1 and 2 (C17 to C19), the item-5
    print/parse roundtrip (C20).
  \<^item> The counter and the Analyzer: a count is positive exactly on the reached
    vertices (C26).
  \<^item> The specification of paths:
    \<^item> on an edge list without repeated triples, the enumerator returns each walk
      from the source that ends at the target exactly once (C27);
    \<^item> on such a DAG, \<open>ways[t]\<close> is the number of walks from the source to
      \<open>t\<close> (C28);
    \<^item> the enumerator runs out of recursion depth exactly when a walk as long as the
      budget avoids the target (C21).
  \<^item> The driver:
    \<^item> \<open>main\<close> runs the item its argument names, item 1 by default (C29);
    \<^item> an argument without a digit raises \<open>ValueError\<close> (C30);
    \<^item> the usage message names items 1 to 5 while option 6 runs (C31).

  Fuel. The enumerator spends one unit per nested call. On a DAG the depth below a
  vertex \<open>u\<close> is at most the number \<open>rank u\<close> of vertices reachable from it by
  a non-empty walk. That number is smaller than the number of vertices, so the
  \<open>length nodes + 1\<close> units item 2 gives are enough (C14, C19). The fuel is the
  recursion budget: C21 says exactly when a budget of \<open>n\<close> nested calls runs out,
  which is when Python raises \<open>RecursionError\<close>. Under CPython's default limit of
  1000 frames, less the frames of the module, \<open>main\<close>, \<open>solve_item2\<close> and
  \<open>enumerate_paths_dfs\<close>, the budget is several hundred calls, far above the
  longest path of the reference graphs (4 edges), so item 2's model with
  \<open>length nodes + 1\<close> units returns what the program returns there. On a cyclic
  graph every budget runs out (C21), and item 2 never gets that far because item 1
  first raises the cycle error.

  Not modelled:
  \<^item> the traceback an uncaught exception writes to standard error; the model
    returns the exception as a value and the standard output up to it;
  \<^item> the \<open>"reason"\<close> field of the planner's report as a field: the report
    carries its numbers, and Console builds the text from them (\<open>reason_text\<close>);
  \<^item> Unicode digits and spaces, which \<open>int()\<close> also accepts: characters are
    bytes in the model;
  \<^item> the imports (\<open>typing\<close>, \<open>collections\<close>, \<open>sys\<close>), which bind names
    only;
  \<^item> the exact value of the recursion limit, which depends on the interpreter and
    on the frames of the caller (the unit tests call the enumerator from deeper
    frames than \<open>main\<close>): item 2 is modelled with a budget above the longest path,
    and C21 states the outcome for every budget.
\<close>

text \<open>The order and the path counts of the reference graph, shared by the witnesses.\<close>

lemma reference_order: "topo_order (g_adj (build_graph EDGES)) (g_nodes (build_graph EDGES)) = Inr [0, 1, 2, 5, 6, 4, 3, 7, 8]"
  by code_simp

lemma reference_counts:
  "count_paths_from_source (g_adj (build_graph EDGES)) (g_nodes (build_graph EDGES)) [0, 1, 2, 5, 6, 4, 3, 7, 8] SOURCE
     = Inr [(0, 1), (1, 1), (2, 1), (3, 3), (4, 2), (5, 1), (6, 1), (7, 4), (8, 10)]"
  by code_simp

section \<open>Witnesses of the component theorems\<close>

text \<open>Kahn's order of the reference graph, and the properties C3 proves of it.\<close>

theorem topo_order_sound_witness:
  "topo_order (g_adj (build_graph EDGES)) (g_nodes (build_graph EDGES)) = Inr [0, 1, 2, 5, 6, 4, 3, 7, 8]
   \<and> distinct [0::int, 1, 2, 5, 6, 4, 3, 7, 8] \<and> set [0::int, 1, 2, 5, 6, 4, 3, 7, 8] = endpoints EDGES
   \<and> position [0::int, 1, 2, 5, 6, 4, 3, 7, 8] 4 < position [0::int, 1, 2, 5, 6, 4, 3, 7, 8] 3"
proof -
  note h = reference_order
  have e: "(4, 3) \<in> edge_rel EDGES" by (simp add: EDGES_def)
  from Topo_Sort.topo_order_sound [OF h] e h show ?thesis by blast
qed

text \<open>The two-cycle \<open>0 \<rightarrow> 1 \<rightarrow> 0\<close> is rejected, and C5 says why.\<close>

theorem topo_order_NotADag_iff_witness:
  "topo_order (g_adj (build_graph [(0, 1, 0), (1, 0, 0)])) (g_nodes (build_graph [(0, 1, 0), (1, 0, 0)])) = Inl NotADag
   \<and> \<not> acyclic (edge_rel [(0, 1, 0), (1, 0, 0)])"
proof -
  have h: "topo_order (g_adj (build_graph [(0, 1, 0), (1, 0, 0)])) (g_nodes (build_graph [(0, 1, 0), (1, 0, 0)])) = Inl NotADag"
    by code_simp
  from h Topo_Sort.topo_order_NotADag_iff [of "[(0, 1, 0), (1, 0, 0)]"] show ?thesis by simp
qed

text \<open>The recurrence C6 at vertex 8 of the reference graph: \<open>10 = 3 + 2 + 1 + 4\<close>.\<close>

theorem count_paths_recurrence_witness:
  "count_paths_from_source (g_adj (build_graph EDGES)) (g_nodes (build_graph EDGES)) [0, 1, 2, 5, 6, 4, 3, 7, 8] 0 =
     Inr [(0, 1), (1, 1), (2, 1), (3, 3), (4, 2), (5, 1), (6, 1), (7, 4), (8, 10)]
   \<and> the (map_of [(0::int, 1::nat), (1, 1), (2, 1), (3, 3), (4, 2), (5, 1), (6, 1), (7, 4), (8, 10)] 8) =
       (if (8::int) = 0 then 1 else 0)
       + sum_list (map (\<lambda>(u, _). the (map_of [(0::int, 1::nat), (1, 1), (2, 1), (3, 3), (4, 2), (5, 1), (6, 1), (7, 4), (8, 10)] u)) (preds EDGES 8))"
proof -
  note t = reference_order
  note c = reference_counts [unfolded SOURCE_def]
  have e: "(8::int) \<in> insert 0 (endpoints EDGES)" by (simp add: EDGES_def)
  from Path_Count.count_paths_recurrence [OF t, of 0] c e show ?thesis by auto
qed

text \<open>C7 on the diamond with the strict policy: capacity 1 does not exceed \<open>ways[3] = 2\<close>.\<close>

theorem propose_infeasible_witness:
  "recount DIAMOND 0 = Inr ([(0, 1), (1, 1), (2, 1), (3, 2)], 3)
   \<and> sum_list (map (count_of [(0, 1), (1, 1), (2, 1), (3, 2)]) (planner_allowed DIAMOND 0 False 3))
       \<le> count_of [(0, 1), (1, 1), (2, 1), (3, 2)] 3
   \<and> propose_V_prime_insertion DIAMOND 0 None False =
     Inr (Impossible \<lparr>inf_V = 3, inf_waysV = count_of [(0, 1), (1, 1), (2, 1), (3, 2)] 3,
        inf_cap = sum_list (map (count_of [(0, 1), (1, 1), (2, 1), (3, 2)]) (planner_allowed DIAMOND 0 False 3)),
        inf_allowed = planner_allowed DIAMOND 0 False 3,
        inf_neighborsV = sorted_list_of_set (planner_NV DIAMOND 3)\<rparr>)"
proof -
  have r: "recount DIAMOND 0 = Inr ([(0, 1), (1, 1), (2, 1), (3, 2)], 3)" by code_simp
  have c: "sum_list (map (count_of [(0, 1), (1, 1), (2, 1), (3, 2)]) (planner_allowed DIAMOND 0 False 3))
       \<le> count_of [(0, 1), (1, 1), (2, 1), (3, 2)] 3" by code_simp
  from r c Insertion_Planner.propose_infeasible [OF r c, of None] show ?thesis by blast
qed

text \<open>C8 on the reference graph with the permissive policy: \<open>V' = 9\<close> becomes the most
  reachable vertex.\<close>

theorem propose_feasible_witness:
  "recount EDGES SOURCE = Inr ([(0, 1), (1, 1), (2, 1), (3, 3), (4, 2), (5, 1), (6, 1), (7, 4), (8, 10)], 8)
   \<and> SOURCE \<in> endpoints EDGES \<and> fresh_id EDGES None \<notin> endpoints EDGES
   \<and> count_of [(0, 1), (1, 1), (2, 1), (3, 3), (4, 2), (5, 1), (6, 1), (7, 4), (8, 10)] 8
       < sum_list (map (count_of [(0, 1), (1, 1), (2, 1), (3, 3), (4, 2), (5, 1), (6, 1), (7, 4), (8, 10)])
                       (planner_allowed EDGES SOURCE True 8))
   \<and> (\<exists>p. propose_V_prime_insertion EDGES SOURCE None True = Inr (Possible p)
          \<and> pr_V_prime p = fresh_id EDGES None \<and> pr_becomes_most_reachable p
          \<and> pr_waysV_prime p = sum_list (map (count_of [(0, 1), (1, 1), (2, 1), (3, 3), (4, 2), (5, 1), (6, 1), (7, 4), (8, 10)]) (pr_picked p)))"
proof -
  have r: "recount EDGES SOURCE = Inr ([(0, 1), (1, 1), (2, 1), (3, 3), (4, 2), (5, 1), (6, 1), (7, 4), (8, 10)], 8)"
    by code_simp
  have s: "SOURCE \<in> endpoints EDGES" by code_simp
  have f: "fresh_id EDGES None \<notin> endpoints EDGES" by code_simp
  have c: "count_of [(0, 1), (1, 1), (2, 1), (3, 3), (4, 2), (5, 1), (6, 1), (7, 4), (8, 10)] 8
       < sum_list (map (count_of [(0, 1), (1, 1), (2, 1), (3, 3), (4, 2), (5, 1), (6, 1), (7, 4), (8, 10)])
                       (planner_allowed EDGES SOURCE True 8))" by code_simp
  from Insertion_Planner.propose_feasible [OF r s f c] r s f c show ?thesis by blast
qed

text \<open>C9 on the two-cycle.\<close>

theorem propose_cyclic_witness:
  "\<not> acyclic (edge_rel [(0, 1, 0), (1, 0, 0)]) \<and> propose_V_prime_insertion [(0, 1, 0), (1, 0, 0)] 0 None True = Inl NotADag"
proof -
  have c: "\<not> acyclic (edge_rel [(0, 1, 0), (1, 0, 0)])" by auto
  from c propose_cyclic [OF c] show ?thesis by blast
qed


text \<open>C14 on the reference graph: ten units of fuel are enough.\<close>

theorem enumerate_paths_dfs_total_witness:
  "acyclic (edge_rel EDGES) \<and> card (endpoints EDGES) < 10
   \<and> (\<exists>ps. enumerate_paths_dfs 10 (g_adj (build_graph EDGES)) SOURCE 8 = Some ps)"
proof -
  have "topo_order (g_adj (build_graph EDGES)) (g_nodes (build_graph EDGES)) = Inr [0, 1, 2, 5, 6, 4, 3, 7, 8]"
    by code_simp
  then have a: "acyclic (edge_rel EDGES)" using built_topo_order_NotADag_iff [of EDGES] by auto
  have c: "card (endpoints EDGES) < 10" by code_simp
  from a c enumerate_paths_dfs_total [OF a c] show ?thesis by blast
qed

text \<open>C15 on the diamond: the record \<open>([0, 1, 3], 0)\<close> is the walk \<open>0 \<rightarrow> 1 \<rightarrow> 3\<close>.\<close>

theorem enumerate_paths_sound_witness:
  "enumerate_paths_dfs 5 (g_adj (build_graph DIAMOND)) 0 3 = Some [([0, 1, 3], 0), ([0, 2, 3], 0)]
   \<and> ([0, 1, 3], 0) \<in> set [([0, 1, 3], 0), ([0, 2, 3], 0) :: path_rec]
   \<and> (\<exists>p. is_walk DIAMOND 0 p 3 \<and> [0, 1, 3] = walk_vertices 0 p \<and> 0 = walk_cost p
          \<and> 3 \<notin> set (butlast [0, 1, 3 :: vertex]))"
proof -
  have e: "enumerate_paths_dfs 5 (g_adj (build_graph DIAMOND)) 0 3 = Some [([0, 1, 3], 0), ([0, 2, 3], 0)]"
    by code_simp
  have m: "([0, 1, 3], 0) \<in> set [([0, 1, 3], 0), ([0, 2, 3], 0) :: path_rec]" by simp
  from e m enumerate_paths_sound [OF e m] show ?thesis by blast
qed

text \<open>C16 on the reference graph: the enumeration to 8 has \<open>ways[8]\<close> records.\<close>

theorem enumerate_paths_count_witness:
  "topo_order (g_adj (build_graph EDGES)) (g_nodes (build_graph EDGES)) = Inr [0, 1, 2, 5, 6, 4, 3, 7, 8]
   \<and> count_paths_from_source (g_adj (build_graph EDGES)) (g_nodes (build_graph EDGES)) [0, 1, 2, 5, 6, 4, 3, 7, 8] SOURCE
       = Inr [(0, 1), (1, 1), (2, 1), (3, 3), (4, 2), (5, 1), (6, 1), (7, 4), (8, 10)]
   \<and> 8 \<in> endpoints EDGES
   \<and> (\<exists>ps. enumerate_paths_dfs 10 (g_adj (build_graph EDGES)) SOURCE 8 = Some ps
          \<and> length ps = count_of [(0, 1), (1, 1), (2, 1), (3, 3), (4, 2), (5, 1), (6, 1), (7, 4), (8, 10)] 8)"
proof -
  note t = reference_order
  note c = reference_counts
  have v: "8 \<in> endpoints EDGES" by code_simp
  have "enumerate_paths_dfs 10 (g_adj (build_graph EDGES)) SOURCE 8 \<noteq> None" by code_simp
  then obtain ps where e: "enumerate_paths_dfs 10 (g_adj (build_graph EDGES)) SOURCE 8 = Some ps" by blast
  from t c v e enumerate_paths_count [OF t c v e] show ?thesis by blast
qed


text \<open>C17 on the reference graph: 8 is reported, and vertex 7 has fewer paths.\<close>

theorem solve_item1_most_reachable_witness:
  "solve_item1 EDGES SOURCE = Inr \<lparr>it1_V = 8, it1_ways = [(0, 1), (1, 1), (2, 1), (3, 3), (4, 2), (5, 1), (6, 1), (7, 4), (8, 10)],
       it1_graph = build_graph EDGES\<rparr>
   \<and> (8::vertex) \<in> endpoints EDGES
   \<and> count_of [(0, 1), (1, 1), (2, 1), (3, 3), (4, 2), (5, 1), (6, 1), (7, 4), (8, 10)] 7
       < count_of [(0, 1), (1, 1), (2, 1), (3, 3), (4, 2), (5, 1), (6, 1), (7, 4), (8, 10)] 8"
proof -
  have h: "solve_item1 EDGES SOURCE = Inr \<lparr>it1_V = 8, it1_ways = [(0, 1), (1, 1), (2, 1), (3, 3), (4, 2), (5, 1), (6, 1), (7, 4), (8, 10)],
       it1_graph = build_graph EDGES\<rparr>" by code_simp
  have v: "(7::vertex) \<in> endpoints EDGES" by code_simp
  from Items.solve_item1_most_reachable [OF h] h v show ?thesis by simp
qed

text \<open>C18 on the two-cycle and on the empty edge list.\<close>

theorem solve_item1_errors_witness:
  "solve_item1 [(0, 1, 0), (1, 0, 0)] 0 = Inl NotADag \<and> solve_item1 [] 0 = Inl EmptySequence"
  using Items.solve_item1_errors [of "[(0, 1, 0), (1, 0, 0)]" 0] Items.solve_item1_errors [of "[]" 0]
  by auto

text \<open>C19 on the reference graph: ten ranked records.\<close>

theorem solve_item2_contract_witness:
  "solve_item1 EDGES SOURCE = Inr \<lparr>it1_V = 8, it1_ways = [(0, 1), (1, 1), (2, 1), (3, 3), (4, 2), (5, 1), (6, 1), (7, 4), (8, 10)],
       it1_graph = build_graph EDGES\<rparr>
   \<and> (\<exists>ps. solve_item2 EDGES SOURCE = Inr (\<lparr>it1_V = 8, it1_ways = [(0, 1), (1, 1), (2, 1), (3, 3), (4, 2), (5, 1), (6, 1), (7, 4), (8, 10)],
       it1_graph = build_graph EDGES\<rparr>, Some ps) \<and> length ps = 10)"
proof -
  have h: "solve_item1 EDGES SOURCE = Inr \<lparr>it1_V = 8, it1_ways = [(0, 1), (1, 1), (2, 1), (3, 3), (4, 2), (5, 1), (6, 1), (7, 4), (8, 10)],
       it1_graph = build_graph EDGES\<rparr>" by code_simp
  from Items.solve_item2_contract [OF h] h show ?thesis by auto
qed

text \<open>C20 on a graph where the strict policy succeeds: three printed edges into \<open>V' = 6\<close>.\<close>

theorem item5_lines_roundtrip_witness:
  "solve_item5 [(0, 1, 0), (1, 2, 0), (0, 3, 0), (3, 2, 0), (0, 4, 0), (0, 5, 0)] 0 =
     Inr (Possible \<lparr>pr_V = 2, pr_waysV = 2, pr_V_prime = 6, pr_waysV_prime = 3,
          pr_becomes_most_reachable = True, pr_neighborsV = [1, 3],
          pr_allowed = [0, 4, 5], pr_picked = [0, 4, 5],
          pr_insertion_edges = [(0, 6, 0), (4, 6, 0), (5, 6, 0)]\<rparr>)
   \<and> map parse_edge [''{0, 6, 0}'', ''{4, 6, 0}'', ''{5, 6, 0}''] = [Some (0, 6, 0), Some (4, 6, 0), Some (5, 6, 0)]"
proof -
  have h: "solve_item5 [(0, 1, 0), (1, 2, 0), (0, 3, 0), (3, 2, 0), (0, 4, 0), (0, 5, 0)] 0 =
     Inr (Possible \<lparr>pr_V = 2, pr_waysV = 2, pr_V_prime = 6, pr_waysV_prime = 3,
          pr_becomes_most_reachable = True, pr_neighborsV = [1, 3],
          pr_allowed = [0, 4, 5], pr_picked = [0, 4, 5],
          pr_insertion_edges = [(0, 6, 0), (4, 6, 0), (5, 6, 0)]\<rparr>)" by code_simp
  have l: "item5_edge_lines (Possible \<lparr>pr_V = 2, pr_waysV = 2, pr_V_prime = 6, pr_waysV_prime = 3,
          pr_becomes_most_reachable = True, pr_neighborsV = [1, 3],
          pr_allowed = [0, 4, 5], pr_picked = [0, 4, 5],
          pr_insertion_edges = [(0, 6, 0), (4, 6, 0), (5, 6, 0)]\<rparr>) = [''{0, 6, 0}'', ''{4, 6, 0}'', ''{5, 6, 0}'']"
    by code_simp
  from Items.item5_lines_roundtrip [OF h] h show ?thesis by (simp only: l) simp
qed


text \<open>C22 at the initial state of the reference graph: the queue holds the source and the first round runs.\<close>

theorem kahn_reach_invariant_witness:
  "kahn_reach (g_adj (build_graph EDGES)) (g_nodes (build_graph EDGES))
     \<lparr>ks_indeg = [(0, 0), (1, 1), (2, 1), (3, 2), (4, 2), (5, 1), (6, 1), (7, 3), (8, 4)],
      ks_queue = [0], ks_order = []\<rparr>
   \<and> (\<exists>s'. kahn_iter (g_adj (build_graph EDGES))
     \<lparr>ks_indeg = [(0, 0), (1, 1), (2, 1), (3, 2), (4, 2), (5, 1), (6, 1), (7, 3), (8, 4)],
      ks_queue = [0], ks_order = []\<rparr> s')"
proof -
  have i: "kahn_init (g_adj (build_graph EDGES)) (g_nodes (build_graph EDGES)) =
     Inr \<lparr>ks_indeg = [(0, 0), (1, 1), (2, 1), (3, 2), (4, 2), (5, 1), (6, 1), (7, 3), (8, 4)],
      ks_queue = [0], ks_order = []\<rparr>" by code_simp
  have r: "kahn_reach (g_adj (build_graph EDGES)) (g_nodes (build_graph EDGES))
     \<lparr>ks_indeg = [(0, 0), (1, 1), (2, 1), (3, 2), (4, 2), (5, 1), (6, 1), (7, 3), (8, 4)],
      ks_queue = [0], ks_order = []\<rparr>" using i by (rule kahn_reach.init)
  have d: "distinct (g_nodes (build_graph EDGES))" using build_graph_nodes [of EDGES] by blast
  from Kahn_Machine.kahn_reach_invariant [OF d built_adj_closed r] r show ?thesis by simp
qed

text \<open>C23 from the initial state of the reference graph.\<close>

theorem kahn_reach_terminates_witness:
  "kahn_reach (g_adj (build_graph EDGES)) (g_nodes (build_graph EDGES))
     \<lparr>ks_indeg = [(0, 0), (1, 1), (2, 1), (3, 2), (4, 2), (5, 1), (6, 1), (7, 3), (8, 4)],
      ks_queue = [0], ks_order = []\<rparr>
   \<and> (\<exists>t. (kahn_iter (g_adj (build_graph EDGES)))\<^sup>*\<^sup>*
     \<lparr>ks_indeg = [(0, 0), (1, 1), (2, 1), (3, 2), (4, 2), (5, 1), (6, 1), (7, 3), (8, 4)],
      ks_queue = [0], ks_order = []\<rparr> t \<and> ks_queue t = [])"
proof -
  have i: "kahn_init (g_adj (build_graph EDGES)) (g_nodes (build_graph EDGES)) =
     Inr \<lparr>ks_indeg = [(0, 0), (1, 1), (2, 1), (3, 2), (4, 2), (5, 1), (6, 1), (7, 3), (8, 4)],
      ks_queue = [0], ks_order = []\<rparr>" by code_simp
  have r: "kahn_reach (g_adj (build_graph EDGES)) (g_nodes (build_graph EDGES))
     \<lparr>ks_indeg = [(0, 0), (1, 1), (2, 1), (3, 2), (4, 2), (5, 1), (6, 1), (7, 3), (8, 4)],
      ks_queue = [0], ks_order = []\<rparr>" using i by (rule kahn_reach.init)
  have d: "distinct (g_nodes (build_graph EDGES))" using build_graph_nodes [of EDGES] by blast
  from Kahn_Machine.kahn_reach_terminates [OF d built_adj_closed r] r show ?thesis by blast
qed

text \<open>C24 at the initial state of the reference graph, vertex 8 (four in-edges).\<close>

theorem kahn_reach_indeg_bounds_witness:
  "kahn_reach (g_adj (build_graph EDGES)) (g_nodes (build_graph EDGES))
     \<lparr>ks_indeg = [(0, 0), (1, 1), (2, 1), (3, 2), (4, 2), (5, 1), (6, 1), (7, 3), (8, 4)],
      ks_queue = [0], ks_order = []\<rparr>
   \<and> (8::vertex) \<in> endpoints EDGES
   \<and> (\<exists>k. map_of [(0, 0), (1, 1), (2, 1), (3, 2), (4, 2), (5, 1), (6, 1), (7, 3), (8, 4 :: int)] 8 = Some k
          \<and> 0 \<le> k \<and> k \<le> int (length (preds EDGES 8)))"
proof -
  have i: "kahn_init (g_adj (build_graph EDGES)) (g_nodes (build_graph EDGES)) =
     Inr \<lparr>ks_indeg = [(0, 0), (1, 1), (2, 1), (3, 2), (4, 2), (5, 1), (6, 1), (7, 3), (8, 4)],
      ks_queue = [0], ks_order = []\<rparr>" by code_simp
  have r: "kahn_reach (g_adj (build_graph EDGES)) (g_nodes (build_graph EDGES))
     \<lparr>ks_indeg = [(0, 0), (1, 1), (2, 1), (3, 2), (4, 2), (5, 1), (6, 1), (7, 3), (8, 4)],
      ks_queue = [0], ks_order = []\<rparr>" using i by (rule kahn_reach.init)
  have v: "(8::vertex) \<in> endpoints EDGES" by code_simp
  from Kahn_Machine.kahn_reach_indeg_bounds [OF r v] r v show ?thesis by simp
qed

text \<open>C25 on the diamond.\<close>

theorem enumerate_paths_simple_witness:
  "acyclic (edge_rel DIAMOND)
   \<and> enumerate_paths_dfs 5 (g_adj (build_graph DIAMOND)) 0 3 = Some [([0, 1, 3], 0), ([0, 2, 3], 0)]
   \<and> distinct [0, 1, 3 :: vertex] \<and> length [0, 1, 3 :: vertex] \<le> card (insert 0 (endpoints DIAMOND))"
proof -
  have "topo_order (g_adj (build_graph DIAMOND)) (g_nodes (build_graph DIAMOND)) = Inr [0, 1, 2, 3]"
    by code_simp
  then have a: "acyclic (edge_rel DIAMOND)" using built_topo_order_NotADag_iff [of DIAMOND] by auto
  have e: "enumerate_paths_dfs 5 (g_adj (build_graph DIAMOND)) 0 3 = Some [([0, 1, 3], 0), ([0, 2, 3], 0)]"
    by code_simp
  have m: "([0, 1, 3], 0) \<in> set [([0, 1, 3], 0), ([0, 2, 3], 0) :: path_rec]" by simp
  from Path_Enum.enumerate_paths_simple [OF a e m] a e show ?thesis by blast
qed


text \<open>C26 on the reference graph: vertex 8 has paths and is reached.\<close>

theorem count_positive_iff_reachable_witness:
  "topo_order (g_adj (build_graph EDGES)) (g_nodes (build_graph EDGES)) = Inr [0, 1, 2, 5, 6, 4, 3, 7, 8]
   \<and> count_paths_from_source (g_adj (build_graph EDGES)) (g_nodes (build_graph EDGES)) [0, 1, 2, 5, 6, 4, 3, 7, 8] SOURCE
       = Inr [(0, 1), (1, 1), (2, 1), (3, 3), (4, 2), (5, 1), (6, 1), (7, 4), (8, 10)]
   \<and> 8 \<in> insert SOURCE (endpoints EDGES)
   \<and> 8 \<in> reachable_from_source (g_adj (build_graph EDGES)) SOURCE"
proof -
  note t = reference_order
  note c = reference_counts
  have v: "8 \<in> insert SOURCE (endpoints EDGES)" by code_simp
  from Items.count_positive_iff_reachable [OF t c v] t c v show ?thesis by simp
qed


text \<open>C27 on the diamond: the two records are the two walks from 0 to 3.\<close>

theorem enumerate_paths_exact_witness:
  "distinct DIAMOND
   \<and> enumerate_paths_dfs 5 (g_adj (build_graph DIAMOND)) 0 3 = Some [([0, 1, 3], 0), ([0, 2, 3], 0)]
   \<and> (\<exists>P. [([0, 1, 3], 0), ([0, 2, 3], 0)] = map (\<lambda>p. (walk_vertices 0 p, walk_cost p)) P \<and> distinct P
          \<and> set P = {p. is_walk DIAMOND 0 p 3 \<and> 3 \<notin> set (butlast (walk_vertices 0 p))})"
proof -
  have d: "distinct DIAMOND" by code_simp
  have e: "enumerate_paths_dfs 5 (g_adj (build_graph DIAMOND)) 0 3 = Some [([0, 1, 3], 0), ([0, 2, 3], 0)]"
    by code_simp
  from Path_Spec.enumerate_paths_exact [OF d e] d e show ?thesis by blast
qed

text \<open>C28 on the reference graph: the edge list has exactly ten walks from 0 to 8.\<close>

theorem count_paths_counts_walks_witness:
  "distinct EDGES
   \<and> topo_order (g_adj (build_graph EDGES)) (g_nodes (build_graph EDGES)) = Inr [0, 1, 2, 5, 6, 4, 3, 7, 8]
   \<and> count_paths_from_source (g_adj (build_graph EDGES)) (g_nodes (build_graph EDGES)) [0, 1, 2, 5, 6, 4, 3, 7, 8] SOURCE
       = Inr [(0, 1), (1, 1), (2, 1), (3, 3), (4, 2), (5, 1), (6, 1), (7, 4), (8, 10)]
   \<and> 8 \<in> endpoints EDGES
   \<and> card {p. is_walk EDGES SOURCE p 8} = 10"
proof -
  have d: "distinct EDGES" by code_simp
  note t = reference_order
  note c = reference_counts
  have v: "8 \<in> endpoints EDGES" by code_simp
  from Path_Spec.count_paths_counts_walks [OF d t c v] d t c v show ?thesis by simp
qed

text \<open>C29: \<open>python low_level_problem.py " 6"\<close> runs item 6, and no argument runs item 1.\<close>

theorem main_selects_witness:
  "list_all py_isspace '' '' \<and> list_all py_isspace []
   \<and> main True [''low_level_problem.py''] = Inr (main_dispatch 1 EDGES SOURCE)
   \<and> main True [''low_level_problem.py'', '' '' @ string_of_int 6 @ []] = Inr (main_dispatch 6 EDGES SOURCE)"
proof -
  have a: "list_all py_isspace '' ''" by code_simp
  have b: "list_all py_isspace []" by simp
  note d = dataset_independent_of_import [of True]
  from Items.main_selects [OF a b, of True "''low_level_problem.py''" 6 "[]"] a b d show ?thesis by simp
qed

text \<open>C30: \<open>python low_level_problem.py abc\<close> raises \<open>ValueError\<close>.\<close>

theorem main_invalid_literal_witness:
  "main True [''low_level_problem.py'', ''abc''] = Inl (IntLiteralError ''abc'')"
proof -
  have a: "\<forall>c \<in> set ''abc''. \<not> py_isdigit c" by code_simp
  from Items.main_invalid_literal [OF a, of True "''low_level_problem.py''" "[]"] show ?thesis .
qed

text \<open>C31 for option 7: the usage line is printed, though option 6 runs item 6.\<close>

theorem main_usage_omits_item6_witness:
  "((7::int) < 1 \<or> 6 < (7::int))
   \<and> main True [''low_level_problem.py'', ''6''] = Inr (Run_item6 (solve_item6 EDGES SOURCE))
   \<and> main_stdout True [''low_level_problem.py'', string_of_int 7] =
       ''Opci'' @ [CHR 0xC3, CHR 0xB3] @ ''n no v'' @ [CHR 0xC3, CHR 0xA1] @ ''lida. Usa 1..5'' @ [CHR 0x0A]"
proof -
  have k: "(7::int) < 1 \<or> 6 < (7::int)" by simp
  note d = dataset_independent_of_import [of True]
  from Console.main_usage_omits_item6 [OF k, of True "''low_level_problem.py''"] k d show ?thesis by simp
qed

text \<open>C21 on the diamond: a budget of two nested calls runs out on the walk 0, 1, 3,
  whose first two vertices avoid the target 3.\<close>

theorem enumerate_paths_recursion_depth_witness:
  "enumerate_paths_dfs 2 (g_adj (build_graph DIAMOND)) 0 3 = None
   \<and> (\<exists>p v. is_walk DIAMOND 0 p v \<and> length p = 2 \<and> 3 \<notin> set (take 2 (walk_vertices 0 p)))"
proof -
  have "enumerate_paths_dfs 2 (g_adj (build_graph DIAMOND)) 0 3 = None" by code_simp
  with Path_Spec.enumerate_paths_recursion_depth [of 2 DIAMOND 0 3] show ?thesis by blast
qed

text \<open>C1 on the diamond of the unit tests: the source 0 is not adjacent to
  \<open>V = 3\<close>, so the permissive policy succeeds with 3 among the allowed parents.\<close>

theorem propose_permissive_admits_V_witness:
  "\<exists>p. propose_V_prime_insertion DIAMOND 0 None True = Inr (Possible p)
     \<and> 3 \<in> set (pr_allowed p) \<and> pr_becomes_most_reachable p"
proof -
  have r: "recount DIAMOND 0 = Inr ([(0, 1), (1, 1), (2, 1), (3, 2)], 3)" by code_simp
  have s: "0 \<in> endpoints DIAMOND" by code_simp
  have n: "(0, 3) \<notin> edge_rel DIAMOND" "(3, 0) \<notin> edge_rel DIAMOND" by (simp_all add: DIAMOND_def)
  from Planner_Findings.propose_permissive_admits_V [OF r s _ n] show ?thesis by simp
qed

text \<open>C10 on \<open>0 \<rightarrow> 1\<close> with source 2 = \<open>max(nodes) + 1\<close>.\<close>

theorem propose_source_collision_witness:
  "propose_V_prime_insertion [(0, 1, 0)] 2 None False = Inl NotADag"
proof -
  have a: "acyclic (edge_rel [(0, 1, 0)])" by (simp only: edge_rel_simps acyclic_insert) (simp add: acyclic_def)
  have m: "(2::vertex) = Max (endpoints [(0, 1, 0)]) + 1" by simp
  from Planner_Findings.propose_source_collision [OF _ a m] show ?thesis by simp
qed

text \<open>C11 on \<open>0 \<rightarrow> 1\<close> with source \<open>-1\<close>: a proposal whose \<open>V' = 2\<close> is not the
  most reachable vertex.\<close>

theorem propose_source_outside_not_most_reachable_witness:
  "\<exists>p. propose_V_prime_insertion [(0, 1, 0)] (- 1) None True = Inr (Possible p)
     \<and> pr_V_prime p = 2 \<and> pr_picked p = [- 1] \<and> pr_waysV_prime p = 1
     \<and> \<not> pr_becomes_most_reachable p"
proof -
  have a: "acyclic (edge_rel [(0, 1, 0)])" by (simp only: edge_rel_simps acyclic_insert) (simp add: acyclic_def)
  have o: "- 1 \<notin> endpoints [(0 :: vertex, 1, 0)]" by simp
  have l: "- 1 < Max (endpoints [(0 :: vertex, 1, 0)]) + 1" by simp
  have m: "Max (endpoints [(0 :: vertex, 1, 0)]) + 1 = 2" by simp
  from Planner_Findings.propose_source_outside_not_most_reachable [OF _ a o l, of True] m
  show ?thesis by simp
qed

text \<open>C12 on the reference graph with the permissive policy and \<open>vprime = 3\<close>: the
  allowed parent of maximal count is 8, and 3 reaches it.\<close>

theorem propose_vprime_closes_cycle_witness:
  "propose_V_prime_insertion EDGES SOURCE (Some 3) True = Inl NotADag"
proof -
  have r: "recount EDGES SOURCE = Inr ([(0, 1), (1, 1), (2, 1), (3, 3), (4, 2), (5, 1), (6, 1), (7, 4), (8, 10)], 8)"
    by code_simp
  have A: "planner_allowed EDGES SOURCE True 8 = [0, 1, 2, 6, 8]" by code_simp
  have c: "count_of [(0, 1), (1, 1), (2, 1), (3, 3), (4, 2), (5, 1), (6, 1), (7, 4), (8, 10)] 8
      < sum_list (map (count_of [(0, 1), (1, 1), (2, 1), (3, 3), (4, 2), (5, 1), (6, 1), (7, 4), (8, 10)])
           (planner_allowed EDGES SOURCE True 8))"
    unfolding A by simp
  have e: "(3, 8) \<in> (edge_rel EDGES)\<^sup>*" by (rule r_into_rtrancl) (simp add: EDGES_def)
  have h: "\<forall>u \<in> set (planner_allowed EDGES SOURCE True 8).
      (\<forall>w \<in> set (planner_allowed EDGES SOURCE True 8).
         count_of [(0, 1), (1, 1), (2, 1), (3, 3), (4, 2), (5, 1), (6, 1), (7, 4), (8, 10)] w
         \<le> count_of [(0, 1), (1, 1), (2, 1), (3, 3), (4, 2), (5, 1), (6, 1), (7, 4), (8, 10)] u)
      \<longrightarrow> (3, u) \<in> (edge_rel EDGES)\<^sup>*"
    unfolding A using e by simp
  from Planner_Findings.propose_vprime_closes_cycle [OF r c h] show ?thesis .
qed

end
